theory Spec2Isabelle
  imports Main "HOL-Library.Word" "HOL-Library.Multiset"
begin

unbundle bit_operations_syntax

section \<open>QMedian palette quantizer: data model\<close>

text \<open>
  The quantizer of \<^verbatim>\<open>sol_qmedian.h\<close>. A \<^verbatim>\<open>struct sqi_colorstruc\<close> is a node of a
  singly linked list; the lists of the program (the working set \<^verbatim>\<open>q->first\<close>, the zero
  list \<^verbatim>\<open>q->zeromap\<close>, every group) never share nodes, so a linked list is a HOL list of
  nodes and \<^verbatim>\<open>NULL\<close> is the empty list. The union \<^verbatim>\<open>sqi_colorchunk\<close> is its 32-bit
  \<^verbatim>\<open>block\<close>; \<^verbatim>\<open>component[k]\<close> is byte \<open>k\<close> of it (little endian; the program never reads a
  component of a block it has overwritten, so the byte order is not observable).
  C \<^verbatim>\<open>int\<close> values are \<open>int\<close>: the sums the program forms over distinct colours stay
  below \<open>2 ^ 31\<close>. Bytes stored to \<^verbatim>\<open>unsigned char\<close> are truncated by \<open>word_of_int\<close>.
  A null dereference and an access outside an allocated array are values of \<open>error\<close>.
\<close>

type_synonym u8 = "8 word"
type_synonym u32 = "32 word"

datatype error = NullDeref | OutOfBounds

definition ebind :: "error + 'a \<Rightarrow> ('a \<Rightarrow> error + 'b) \<Rightarrow> error + 'b" where
  "ebind m f = (case m of Inl e \<Rightarrow> Inl e | Inr x \<Rightarrow> f x)"

definition load :: "'a list \<Rightarrow> int \<Rightarrow> error + 'a" where
  "load xs i = (if 0 \<le> i \<and> i < int (length xs) then Inr (xs ! nat i) else Inl OutOfBounds)"

definition store :: "'a list \<Rightarrow> int \<Rightarrow> 'a \<Rightarrow> error + 'a list" where
  "store xs i v = (if 0 \<le> i \<and> i < int (length xs) then Inr (xs[nat i := v]) else Inl OutOfBounds)"

record sqi_colorstruc =
  coloridx :: int
  data :: u32

definition component :: "sqi_colorstruc \<Rightarrow> int \<Rightarrow> u8" where
  "component c k = ucast (drop_bit (8 * nat k) (data c))"

definition mk_block :: "u8 \<Rightarrow> u8 \<Rightarrow> u8 \<Rightarrow> u8 \<Rightarrow> u32" where
  "mk_block r g b l =
     ucast r OR push_bit 8 (ucast g) OR push_bit 16 (ucast b) OR push_bit 24 (ucast l)"

record SQ =
  first :: "sqi_colorstruc list"
  zeromap :: "sqi_colorstruc list"
  colors :: int
  zeros :: int

definition sq_alloc :: SQ where
  "sq_alloc = \<lparr>first = [], zeromap = [], colors = 0, zeros = 0\<rparr>"

definition sqi_add_color :: "SQ \<Rightarrow> u8 \<Rightarrow> u8 \<Rightarrow> u8 \<Rightarrow> SQ" where
  "sqi_add_color q r g b =
     q\<lparr>first := first q @ [\<lparr>coloridx = colors q, data = mk_block r g b 0\<rparr>],
       colors := colors q + 1\<rparr>"

function sq_addcolormap_loop :: "SQ \<Rightarrow> u8 list \<Rightarrow> int \<Rightarrow> int \<Rightarrow> int \<Rightarrow> error + SQ" where
  "sq_addcolormap_loop q colmap ncolors stride a =
     (if a < ncolors then
        (case load colmap (a * stride + 0) of Inl e \<Rightarrow> Inl e | Inr r \<Rightarrow>
         (case load colmap (a * stride + 1) of Inl e \<Rightarrow> Inl e | Inr g \<Rightarrow>
          (case load colmap (a * stride + 2) of Inl e \<Rightarrow> Inl e | Inr b \<Rightarrow>
             sq_addcolormap_loop (sqi_add_color q r g b) colmap ncolors stride (a + 1))))
      else Inr q)"
  by pat_completeness auto
termination
  by (relation "measure (\<lambda>(q, colmap, ncolors, stride, a). nat (ncolors - a))") auto

declare sq_addcolormap_loop.simps [simp del]

definition sq_addcolormap :: "SQ \<Rightarrow> u8 list \<Rightarrow> int \<Rightarrow> int \<Rightarrow> error + (int \<times> SQ)" where
  "sq_addcolormap q colmap ncolors stride =
     (case sq_addcolormap_loop q colmap ncolors stride 0 of
        Inl e \<Rightarrow> Inl e
      | Inr q' \<Rightarrow> Inr (colors q, q'))"

section \<open>Group analyzer\<close>

fun examine_walk ::
  "sqi_colorstruc list \<Rightarrow> int \<Rightarrow> int \<Rightarrow> int \<Rightarrow> int \<Rightarrow> int \<Rightarrow> int \<Rightarrow> int \<Rightarrow> int \<Rightarrow> int \<Rightarrow>
   (int \<times> int) \<times> (int \<times> int) \<times> (int \<times> int) \<times> (int \<times> int \<times> int)" where
  "examine_walk [] rmin rmax gmin gmax bmin bmax rs gs bs =
     ((rmin, rmax), (gmin, gmax), (bmin, bmax), (rs, gs, bs))"
| "examine_walk (c # g) rmin rmax gmin gmax bmin bmax rs gs bs =
     (let vr = uint (component c 0); vg = uint (component c 1); vb = uint (component c 2) in
      examine_walk g
        (if rmin > vr then vr else rmin) (if rmax < vr then vr else rmax)
        (if gmin > vg then vg else gmin) (if gmax < vg then vg else gmax)
        (if bmin > vb then vb else bmin) (if bmax < vb then vb else bmax)
        (rs + vr) (gs + vg) (bs + vb))"

text \<open>The result is \<open>(component, size, sum)\<close>, the three out-parameters.\<close>

definition examine_select ::
  "(int \<times> int) \<times> (int \<times> int) \<times> (int \<times> int) \<times> (int \<times> int \<times> int) \<Rightarrow> int \<times> int \<times> int" where
  "examine_select st =
     (case st of ((rmin, rmax), (gmin, gmax), (bmin, bmax), (rs, gs, bs)) \<Rightarrow>
        (let r1 = (0, rmax - rmin, rs);
             r2 = (if gmax - gmin > fst (snd r1) then (1, gmax - gmin, gs) else r1);
             r3 = (if bmax - bmin > fst (snd r2) then (2, bmax - bmin, bs) else r2)
         in r3))"

definition sqi_examine_group :: "sqi_colorstruc list \<Rightarrow> error + (int \<times> int \<times> int)" where
  "sqi_examine_group g =
     (case g of
        [] \<Rightarrow> Inl NullDeref
      | c # rest \<Rightarrow>
          (let vr = uint (component c 0); vg = uint (component c 1); vb = uint (component c 2)
           in Inr (examine_select (examine_walk rest vr vr vg vg vb vb vr vg vb))))"

section \<open>Median splitter\<close>

text \<open>
  The walk of \<^verbatim>\<open>sqi_cut_group\<close> returns the number \<open>n\<close> of nodes it has passed:
  \<^verbatim>\<open>second\<close> is node \<open>n - 1\<close>, \<^verbatim>\<open>fore\<close> is node \<open>n - 2\<close> and \<^verbatim>\<open>g\<close> is the list from
  node \<open>n\<close> on. Passing the end of the list dereferences \<^verbatim>\<open>NULL\<close>.
\<close>

fun cut_walk :: "sqi_colorstruc list \<Rightarrow> int \<Rightarrow> int \<Rightarrow> int \<Rightarrow> nat \<Rightarrow> error + nat" where
  "cut_walk [] k median cnt n = (if cnt \<le> median then Inl NullDeref else Inr n)"
| "cut_walk (c # g) k median cnt n =
     (if cnt \<le> median then cut_walk g k median (cnt + uint (component c k)) (Suc n)
      else Inr n)"

text \<open>
  The result is the pair of the group as the call leaves it and the returned list
  (\<open>[]\<close> for \<^verbatim>\<open>NULL\<close>). C's \<^verbatim>\<open>max / 2\<close> truncates towards zero.
\<close>

definition sqi_cut_group ::
  "sqi_colorstruc list \<Rightarrow> int \<Rightarrow> int \<Rightarrow> error + (sqi_colorstruc list \<times> sqi_colorstruc list)" where
  "sqi_cut_group g k mx =
     (let median = (if 0 \<le> mx then mx div 2 else - ((- mx) div 2)) in
      case cut_walk g k median 0 0 of
        Inl e \<Rightarrow> Inl e
      | Inr n \<Rightarrow>
          if n = 0 then Inr (g, [])
          else if n = 1 then Inr (take 1 g, drop 1 g)
          else Inr (take (n - 1) g, drop (n - 1) g))"

section \<open>Bucket sorter\<close>

fun sort_step1 :: "sqi_colorstruc list \<Rightarrow> int \<Rightarrow> sqi_colorstruc list list \<Rightarrow> sqi_colorstruc list list" where
  "sort_step1 [] k bucket = bucket"
| "sort_step1 (col # rest) k bucket =
     (let a = unat (component col k) in sort_step1 rest k (bucket[a := bucket ! a @ [col]]))"

text \<open>\<^verbatim>\<open>while (bucket[s] == NULL) s++\<close> reads past the array when every bucket is empty.\<close>

function sort_first_bucket :: "sqi_colorstruc list list \<Rightarrow> nat \<Rightarrow> error + nat" where
  "sort_first_bucket bucket s =
     (if s < length bucket then
        (if bucket ! s = [] then sort_first_bucket bucket (Suc s) else Inr s)
      else Inl OutOfBounds)"
  by pat_completeness auto
termination
  by (relation "measure (\<lambda>(bucket, s). length bucket - s)") auto

declare sort_first_bucket.simps [simp del]

function sort_relink :: "sqi_colorstruc list list \<Rightarrow> nat \<Rightarrow> sqi_colorstruc list \<Rightarrow> sqi_colorstruc list" where
  "sort_relink bucket a linked =
     (if a < 256 then
        sort_relink bucket (Suc a) (if bucket ! a \<noteq> [] then linked @ bucket ! a else linked)
      else linked)"
  by pat_completeness auto
termination
  by (relation "measure (\<lambda>(bucket, a, linked). 256 - a)") auto

declare sort_relink.simps [simp del]

definition sqi_sort_group :: "sqi_colorstruc list \<Rightarrow> int \<Rightarrow> error + sqi_colorstruc list" where
  "sqi_sort_group col k =
     (let bucket = sort_step1 col k (replicate 256 []) in
      case sort_first_bucket bucket 0 of
        Inl e \<Rightarrow> Inl e
      | Inr s \<Rightarrow> Inr (sort_relink bucket (Suc s) (bucket ! s)))"

section \<open>Duplicate collapser\<close>

text \<open>
  The scan of \<^verbatim>\<open>sqi_dupenuke\<close> over the nodes after the first: the result is the pair
  of the nodes that stay linked after \<^verbatim>\<open>last\<close> and the nodes appended to the zero list,
  each with its block overwritten by \<^verbatim>\<open>lastidx\<close>.
\<close>

fun dupenuke_scan :: "int \<Rightarrow> u32 \<Rightarrow> sqi_colorstruc list \<Rightarrow> sqi_colorstruc list \<times> sqi_colorstruc list" where
  "dupenuke_scan lastidx lastcol [] = ([], [])"
| "dupenuke_scan lastidx lastcol (col # rest) =
     (if data col = lastcol then
        (case dupenuke_scan lastidx lastcol rest of
           (kept, dups) \<Rightarrow> (kept, col\<lparr>data := word_of_int lastidx\<rparr> # dups))
      else
        (case dupenuke_scan (coloridx col) (data col) rest of
           (kept, dups) \<Rightarrow> (col # kept, dups)))"

definition sqi_dupenuke :: "SQ \<Rightarrow> error + SQ" where
  "sqi_dupenuke q =
     ebind (sqi_sort_group (first q) 0) (\<lambda>f0.
     ebind (sqi_sort_group f0 1) (\<lambda>f1.
     ebind (sqi_sort_group f1 2) (\<lambda>f2.
       case f2 of
         [] \<Rightarrow> Inl NullDeref
       | col # rest \<Rightarrow>
           (case dupenuke_scan (coloridx col) (data col) rest of
              (kept, dups) \<Rightarrow>
                Inr (q\<lparr>first := col # kept, zeromap := zeromap q @ dups,
                       zeros := zeros q + int (length dups)\<rparr>)))))"

section \<open>Reduction driver\<close>

definition store_rgb :: "u8 list \<Rightarrow> int \<Rightarrow> u8 \<Rightarrow> u8 \<Rightarrow> u8 \<Rightarrow> error + u8 list" where
  "store_rgb pal i r g b =
     ebind (store pal (i * 3 + 0) r) (\<lambda>pal1.
     ebind (store pal1 (i * 3 + 1) g) (\<lambda>pal2.
     store pal2 (i * 3 + 2) b))"

text \<open>The loop of the shortcut taken when the distinct colours fit the requested width.\<close>

fun fits_fill :: "sqi_colorstruc list \<Rightarrow> int \<Rightarrow> u8 list \<Rightarrow> u8 list \<Rightarrow> error + (u8 list \<times> u8 list)" where
  "fits_fill [] i idxmap pal = Inr (idxmap, pal)"
| "fits_fill (col # rest) i idxmap pal =
     (case store idxmap (coloridx col) (word_of_int i) of Inl e \<Rightarrow> Inl e | Inr idxmap1 \<Rightarrow>
      (case store_rgb pal i (component col 0) (component col 1) (component col 2) of
         Inl e \<Rightarrow> Inl e
       | Inr pal1 \<Rightarrow> fits_fill rest (i + 1) idxmap1 pal1))"

text \<open>\<^verbatim>\<open>*(*idxmap + col->coloridx) = *(*idxmap + col->data.block)\<close> along the zero list.\<close>

fun resolve_zeromap :: "sqi_colorstruc list \<Rightarrow> u8 list \<Rightarrow> error + u8 list" where
  "resolve_zeromap [] idxmap = Inr idxmap"
| "resolve_zeromap (col # rest) idxmap =
     (case load idxmap (uint (data col)) of Inl e \<Rightarrow> Inl e | Inr v \<Rightarrow>
      (case store idxmap (coloridx col) v of Inl e \<Rightarrow> Inl e | Inr idxmap1 \<Rightarrow>
         resolve_zeromap rest idxmap1))"

definition sq_reduce_fits :: "SQ \<Rightarrow> u8 list \<Rightarrow> u8 list \<Rightarrow> error + (u8 list \<times> u8 list \<times> int)" where
  "sq_reduce_fits q idxmap pal =
     (let palwid = colors q - zeros q in
      ebind (sqi_sort_group (first q) 0) (\<lambda>f0.
      ebind (sqi_sort_group f0 2) (\<lambda>f1.
      ebind (sqi_sort_group f1 1) (\<lambda>f2.
      ebind (fits_fill f2 0 idxmap pal) (\<lambda>(idxmap1, pal1).
      ebind (resolve_zeromap (zeromap q) idxmap1) (\<lambda>idxmap2.
        Inr (idxmap2, pal1, palwid)))))))"

text \<open>
  The arrays of the split loop, each allocated with \<^verbatim>\<open>palwid\<close> entries. Inside the loop
  every index is below \<^verbatim>\<open>groups\<close> or equal to it, and the loop guard keeps
  \<^verbatim>\<open>groups < palwid\<close>, so these accesses are in range and written with \<open>!\<close> and
  list update.
\<close>

record split_state =
  group :: "sqi_colorstruc list list"
  groupcomponent :: "int list"
  groupcomponentsize :: "int list"
  groupcomponentsum :: "int list"
  groupsorted :: "int list"
  groups :: nat

definition split_init :: "sqi_colorstruc list \<Rightarrow> int \<Rightarrow> error + split_state" where
  "split_init f palwid =
     (if palwid < 1 then Inl OutOfBounds
      else
        ebind (sqi_examine_group f) (\<lambda>(c, sz, sm).
          Inr \<lparr>group = (replicate (nat palwid) [])[0 := f],
               groupcomponent = (replicate (nat palwid) 0)[0 := c],
               groupcomponentsize = (replicate (nat palwid) 0)[0 := sz],
               groupcomponentsum = (replicate (nat palwid) 0)[0 := sm],
               groupsorted = (replicate (nat palwid) 0)[0 := - 1],
               groups = 1\<rparr>))"

text \<open>\<^verbatim>\<open>for (n = 0; n < groups; n++) if (groupcomponentsize[n] > groupcomponentsize[i]) i = n;\<close>\<close>

definition find_largest :: "int list \<Rightarrow> nat \<Rightarrow> nat" where
  "find_largest sizes ngroups =
     foldl (\<lambda>i n. if sizes ! n > sizes ! i then n else i) 0 [0..<ngroups]"

text \<open>
  One iteration of the split loop. The flag is \<open>False\<close> when the iteration leaves the loop
  through \<^verbatim>\<open>break\<close>.
\<close>

definition split_iter :: "split_state \<Rightarrow> error + (bool \<times> split_state)" where
  "split_iter st =
     (let i = find_largest (groupcomponentsize st) (groups st) in
      ebind (if groupsorted st ! i \<noteq> groupcomponent st ! i then
               ebind (sqi_sort_group (group st ! i) (groupcomponent st ! i)) (\<lambda>s.
                 Inr (st\<lparr>group := (group st)[i := s],
                         groupsorted := (groupsorted st)[i := groupcomponent st ! i]\<rparr>))
             else Inr st) (\<lambda>st1.
      ebind (sqi_cut_group (group st1 ! i) (groupcomponent st1 ! i) (groupcomponentsum st1 ! i))
        (\<lambda>(gi, second).
           let st2 = st1\<lparr>group := (group st1)[i := gi, groups st1 := second]\<rparr> in
           if second = [] then Inr (False, st2)
           else
             ebind (sqi_examine_group (group st2 ! i)) (\<lambda>(c, sz, sm).
             ebind (sqi_examine_group (group st2 ! groups st2)) (\<lambda>(c', sz', sm').
               Inr (True,
                 st2\<lparr>groupcomponent := (groupcomponent st2)[i := c, groups st2 := c'],
                     groupcomponentsize := (groupcomponentsize st2)[i := sz, groups st2 := sz'],
                     groupcomponentsum := (groupcomponentsum st2)[i := sm, groups st2 := sm'],
                     groupsorted := (groupsorted st2)[groups st2 := groupsorted st2 ! i],
                     groups := Suc (groups st2)\<rparr>))))))"

function split_loop :: "int \<Rightarrow> split_state \<Rightarrow> error + split_state" where
  "split_loop palwid st =
     (if int (groups st) < palwid then
        (case split_iter st of
           Inl e \<Rightarrow> Inl e
         | Inr (True, st') \<Rightarrow> split_loop palwid st'
         | Inr (False, st') \<Rightarrow> Inr st')
      else Inr st)"
  by pat_completeness auto
termination
  by (relation "measure (\<lambda>(palwid, st). nat (palwid - int (groups st)))")
     (auto simp: split_iter_def ebind_def Let_def split: if_splits sum.splits prod.splits)

declare split_loop.simps [simp del]

text \<open>The inner loop of the palette build: \<^verbatim>\<open>count\<close> and the three channel sums.\<close>

fun group_sums :: "sqi_colorstruc list \<Rightarrow> int \<Rightarrow> int \<Rightarrow> int \<Rightarrow> int \<Rightarrow> int \<times> int \<times> int \<times> int" where
  "group_sums [] cnt c0 c1 c2 = (cnt, c0, c1, c2)"
| "group_sums (col # rest) cnt c0 c1 c2 =
     group_sums rest (cnt + 1) (c0 + uint (component col 0)) (c1 + uint (component col 1))
       (c2 + uint (component col 2))"

text \<open>
  The palette build loop. The index map is written once per group, at the
  \<^verbatim>\<open>coloridx\<close> of the group's head node, before the inner loop starts.
\<close>

function build_palette :: "split_state \<Rightarrow> nat \<Rightarrow> u8 list \<Rightarrow> u8 list \<Rightarrow> error + (u8 list \<times> u8 list)" where
  "build_palette st i idxmap pal =
     (if i < groups st then
        (case group st ! i of
           [] \<Rightarrow> Inl NullDeref
         | col # rest \<Rightarrow>
             (case store idxmap (coloridx col) (word_of_nat i) of Inl e \<Rightarrow> Inl e | Inr idxmap1 \<Rightarrow>
              (case group_sums (col # rest) 0 0 0 0 of (cnt, c0, c1, c2) \<Rightarrow>
               (case (if groupcomponentsize st ! i > 1 then
                        store_rgb pal (int i)
                          (word_of_int ((c0 + cnt div 2) div cnt))
                          (word_of_int ((c1 + cnt div 2) div cnt))
                          (word_of_int ((c2 + cnt div 2) div cnt))
                      else
                        store_rgb pal (int i) (component col 0) (component col 1) (component col 2))
                of Inl e \<Rightarrow> Inl e
                 | Inr pal1 \<Rightarrow> build_palette st (Suc i) idxmap1 pal1))))
      else Inr (idxmap, pal))"
  by pat_completeness auto
termination
  by (relation "measure (\<lambda>(st, i, idxmap, pal). groups st - i)") auto

declare build_palette.simps [simp del]

text \<open>
  The reduction proper, from the set-up of the first group to the resolution of the zero
  list: the result is the index map and the palette as they stand before the re-sort.
\<close>

definition sq_reduce_split :: "SQ \<Rightarrow> int \<Rightarrow> u8 list \<Rightarrow> u8 list \<Rightarrow> error + (u8 list \<times> u8 list)" where
  "sq_reduce_split q palwid idxmap pal =
     ebind (split_init (first q) palwid) (\<lambda>st0.
     ebind (split_loop palwid st0) (\<lambda>st.
     ebind (build_palette st 0 idxmap pal) (\<lambda>(idxmap1, pal1).
     ebind (resolve_zeromap (zeromap q) idxmap1) (\<lambda>idxmap2.
       Inr (idxmap2, pal1)))))"

text \<open>\<^verbatim>\<open>*(*idxmap + i) = *(remapmap + *(*idxmap + i))\<close> for \<open>i\<close> below \<^verbatim>\<open>totalcolors\<close>.\<close>

function remap_loop :: "u8 list \<Rightarrow> u8 list \<Rightarrow> int \<Rightarrow> int \<Rightarrow> error + u8 list" where
  "remap_loop idxmap remapmap i totalcolors =
     (if i < totalcolors then
        (case load idxmap i of Inl e \<Rightarrow> Inl e | Inr v \<Rightarrow>
         (case load remapmap (uint v) of Inl e \<Rightarrow> Inl e | Inr w \<Rightarrow>
          (case store idxmap i w of Inl e \<Rightarrow> Inl e | Inr idxmap1 \<Rightarrow>
             remap_loop idxmap1 remapmap (i + 1) totalcolors)))
      else Inr idxmap)"
  by pat_completeness auto
termination
  by (relation "measure (\<lambda>(idxmap, remapmap, i, totalcolors). nat (totalcolors - i))") auto

declare remap_loop.simps [simp del]


text \<open>
  \<^verbatim>\<open>sq_reduce\<close> calls itself for the re-sort (\<^verbatim>\<open>SQI_RE_SORT\<close> is defined): the
  synthesized palette is registered as one colour map of \<^verbatim>\<open>palwid\<close> colours and reduced
  to \<^verbatim>\<open>palwid\<close>. The inner call takes the shortcut, which is why the recursion ends;
  the three facts below are what the termination proof needs. Allocation is taken to
  succeed. The result is the index map, the palette and the returned width.
\<close>

lemma sqi_dupenuke_counts:
  "sqi_dupenuke q = Inr q1 \<Longrightarrow> colors q1 = colors q \<and> zeros q \<le> zeros q1"
  by (auto simp: sqi_dupenuke_def ebind_def split: sum.splits list.splits prod.splits)

lemma sq_addcolormap_loop_counts:
  "sq_addcolormap_loop q colmap ncolors stride a = Inr q' \<Longrightarrow>
   colors q' = colors q + (if a < ncolors then ncolors - a else 0) \<and> zeros q' = zeros q"
proof (induction q colmap ncolors stride a rule: sq_addcolormap_loop.induct)
  case (1 q colmap ncolors stride a)
  show ?case
  proof (cases "a < ncolors")
    case True
    from "1.prems" True obtain r g b where
      r: "load colmap (a * stride + 0) = Inr r" and g: "load colmap (a * stride + 1) = Inr g"
      and b: "load colmap (a * stride + 2) = Inr b"
      and rec: "sq_addcolormap_loop (sqi_add_color q r g b) colmap ncolors stride (a + 1) = Inr q'"
      by (subst (asm) sq_addcolormap_loop.simps) (auto split: sum.splits)
    from "1.IH"[OF True r g b rec] True show ?thesis
      by (auto simp: sqi_add_color_def)
  next
    case False
    with "1.prems" show ?thesis
      by (subst (asm) sq_addcolormap_loop.simps) simp
  qed
qed

lemma sq_reduce_split_palwid:
  "sq_reduce_split q palwid idxmap pal = Inr x \<Longrightarrow> 1 \<le> palwid"
  by (auto simp: sq_reduce_split_def split_init_def ebind_def split: if_splits)

function sq_reduce :: "SQ \<Rightarrow> int \<Rightarrow> error + (u8 list \<times> u8 list \<times> int)" where
  "sq_reduce q palwid =
     (let totalcolors = colors q;
          pal = replicate (nat (palwid * 3)) 0;
          idxmap = replicate (nat totalcolors) 0 in
      case sqi_dupenuke q of
        Inl e \<Rightarrow> Inl e
      | Inr q1 \<Rightarrow>
          if colors q1 - zeros q1 \<le> palwid then sq_reduce_fits q1 idxmap pal
          else
            (case sq_reduce_split q1 palwid idxmap pal of
               Inl e \<Rightarrow> Inl e
             | Inr (idxmap1, pal1) \<Rightarrow>
                 (case sq_addcolormap sq_alloc pal1 palwid 3 of
                    Inl e \<Rightarrow> Inl e
                  | Inr (ret, reorder) \<Rightarrow>
                      (case sq_reduce reorder palwid of
                         Inl e \<Rightarrow> Inl e
                       | Inr (remapmap, temppal, palwid') \<Rightarrow>
                           (case remap_loop idxmap1 remapmap 0 totalcolors of
                              Inl e \<Rightarrow> Inl e
                            | Inr idxmap2 \<Rightarrow> Inr (idxmap2, temppal, palwid'))))))"
  by pat_completeness auto
termination
proof (relation "measure (\<lambda>(q, palwid). if colors q - zeros q \<le> palwid then 0 else 1)", goal_cases)
  case 1
  show ?case by simp
next
  case (2 q palwid totalcolors pal idxmap q1 x idxmap1 pal1 y ret reorder)
  have a: "colors q1 = colors q" "zeros q \<le> zeros q1"
    using sqi_dupenuke_counts[OF 2(4)] by simp_all
  have p: "1 \<le> palwid"
    using sq_reduce_split_palwid[OF 2(6)] .
  have "sq_addcolormap_loop sq_alloc pal1 palwid 3 0 = Inr reorder"
    using 2(8) 2(9)[symmetric] by (simp add: sq_addcolormap_def split: sum.splits)
  from sq_addcolormap_loop_counts[OF this] p
  have r: "colors reorder = palwid" "zeros reorder = 0"
    by (simp_all add: sq_alloc_def)
  from 2(5) a r show ?case by simp
qed

declare sq_reduce.simps [simp del]

section \<open>The bucket sorter is a stable sort\<close>


lemma sort_step1_buckets:
  "length bucket = 256 \<Longrightarrow>
   sort_step1 xs k bucket =
     map (\<lambda>v. bucket ! v @ filter (\<lambda>c. unat (component c k) = v) xs) [0..<256]"
proof (induction xs arbitrary: bucket)
  case Nil
  then show ?case by (simp add: list_eq_iff_nth_eq)
next
  case (Cons col rest)
  let ?a = "unat (component col k)"
  have a: "?a < 256" using unsigned_less[of "component col k", where 'a=nat] by simp
  have len: "length (bucket[?a := bucket ! ?a @ [col]]) = 256" using Cons.prems by simp
  show ?case
    using Cons.prems a
    by (simp add: Cons.IH[OF len] Let_def nth_list_update)
qed

lemma sort_relink_concat:
  "length bucket = 256 \<Longrightarrow> sort_relink bucket a linked = linked @ concat (drop a bucket)"
proof (induction bucket a linked rule: sort_relink.induct)
  case (1 bucket a linked)
  show ?case
  proof (cases "a < 256")
    case True
    then have d: "drop a bucket = bucket ! a # drop (Suc a) bucket"
      using "1.prems" by (simp add: Cons_nth_drop_Suc)
    show ?thesis
      using True "1.IH"[OF True "1.prems"] d
      by (subst sort_relink.simps) simp
  next
    case False
    then show ?thesis using "1.prems" by (subst sort_relink.simps) simp
  qed
qed

lemma sort_first_bucket_Inr:
  "concat (drop s bucket) \<noteq> [] \<Longrightarrow>
   \<exists>s'. sort_first_bucket bucket s = Inr s' \<and> s' < length bucket \<and>
        concat (drop s' bucket) = concat (drop s bucket)"
proof (induction bucket s rule: sort_first_bucket.induct)
  case (1 bucket s)
  from "1.prems" have s: "s < length bucket" by (cases "s < length bucket") auto
  then have d: "drop s bucket = bucket ! s # drop (Suc s) bucket"
    by (simp add: Cons_nth_drop_Suc)
  show ?case
  proof (cases "bucket ! s = []")
    case True
    with "1.prems" d have "concat (drop (Suc s) bucket) \<noteq> []" by simp
    from "1.IH"[OF s True this] True d s show ?thesis
      by (subst sort_first_bucket.simps) simp
  next
    case False
    with s show ?thesis by (subst sort_first_bucket.simps) simp
  qed
qed

lemma sort_first_bucket_empty:
  "concat (drop s bucket) = [] \<Longrightarrow> sort_first_bucket bucket s = Inl OutOfBounds"
proof (induction bucket s rule: sort_first_bucket.induct)
  case (1 bucket s)
  show ?case
  proof (cases "s < length bucket")
    case True
    then have d: "drop s bucket = bucket ! s # drop (Suc s) bucket"
      by (simp add: Cons_nth_drop_Suc)
    with "1.prems" have e: "bucket ! s = []" "concat (drop (Suc s) bucket) = []" by auto
    from "1.IH"[OF True e] True e show ?thesis
      by (subst sort_first_bucket.simps) simp
  next
    case False
    then show ?thesis by (subst sort_first_bucket.simps) simp
  qed
qed

text \<open>The concatenation of the value buckets \<open>0, \<dots>, n - 1\<close> of a list is its stable sort.\<close>

definition bucket_concat :: "('a \<Rightarrow> nat) \<Rightarrow> 'a list \<Rightarrow> nat \<Rightarrow> 'a list" where
  "bucket_concat f xs n = concat (map (\<lambda>v. filter (\<lambda>x. f x = v) xs) [0..<n])"

lemma bucket_concat_filter:
  "filter (\<lambda>x. f x = w) (bucket_concat f xs n) = (if w < n then filter (\<lambda>x. f x = w) xs else [])"
proof (induction n)
  case 0
  show ?case by (simp add: bucket_concat_def)
next
  case (Suc n)
  have "filter (\<lambda>x. f x = w) (filter (\<lambda>x. f x = n) xs) = (if w = n then filter (\<lambda>x. f x = w) xs else [])"
    by (induction xs) auto
  with Suc show ?case by (auto simp: bucket_concat_def less_Suc_eq)
qed

lemma bucket_concat_set: "set (bucket_concat f xs n) = {x \<in> set xs. f x < n}"
  by (induction n) (auto simp: bucket_concat_def less_Suc_eq)

lemma bucket_concat_sorted: "sorted (map f (bucket_concat f xs n))"
proof (induction n)
  case 0
  show ?case by (simp add: bucket_concat_def)
next
  case (Suc n)
  have "bucket_concat f xs (Suc n) = bucket_concat f xs n @ filter (\<lambda>x. f x = n) xs"
    by (simp add: bucket_concat_def)
  moreover have "sorted (map f (filter (\<lambda>x. f x = n) xs))"
    by (induction xs) auto
  ultimately show ?case
    using Suc by (auto simp: sorted_append bucket_concat_set)
qed

lemma bucket_concat_mset:
  "mset (bucket_concat f xs n) = mset (filter (\<lambda>x. f x < n) xs)"
proof (induction n)
  case 0
  show ?case by (simp add: bucket_concat_def)
next
  case (Suc n)
  have "bucket_concat f xs (Suc n) = bucket_concat f xs n @ filter (\<lambda>x. f x = n) xs"
    by (simp add: bucket_concat_def)
  moreover have "mset (filter (\<lambda>x. f x < n) xs) + mset (filter (\<lambda>x. f x = n) xs)
      = mset (filter (\<lambda>x. f x < Suc n) xs)"
    by (induction xs) auto
  ultimately show ?case using Suc by simp
qed

lemma bucket_concat_sort_key:
  assumes "\<forall>x\<in>set xs. f x < n"
  shows "bucket_concat f xs n = sort_key f xs"
proof (rule properties_for_sort_key[symmetric])
  from assms have "filter (\<lambda>x. f x < n) xs = xs" by (simp add: filter_id_conv)
  then show "mset (bucket_concat f xs n) = mset xs" by (simp add: bucket_concat_mset)
next
  fix k assume "k \<in> set (bucket_concat f xs n)"
  then have "f k < n" by (simp add: bucket_concat_set)
  then show "filter (\<lambda>x. f k = f x) (bucket_concat f xs n) = filter (\<lambda>x. f k = f x) xs"
    using bucket_concat_filter[of f "f k" xs n] by (simp add: eq_commute)
next
  show "sorted (map f (bucket_concat f xs n))" by (rule bucket_concat_sorted)
qed

lemma sqi_sort_group_sort_key:
  assumes "col \<noteq> []"
  shows "sqi_sort_group col k = Inr (sort_key (\<lambda>c. unat (component c k)) col)"
proof -
  let ?f = "\<lambda>c. unat (component c k)"
  let ?b = "sort_step1 col k (replicate 256 [])"
  have b: "?b = map (\<lambda>v. filter (\<lambda>c. ?f c = v) col) [0..<256]"
    by (simp add: sort_step1_buckets)
  have len: "length ?b = 256" by (simp add: b)
  have lt: "\<forall>x\<in>set col. ?f x < 256"
    using unsigned_less[where 'b=8 and 'a=nat] by simp
  have cc: "concat ?b = sort_key ?f col"
    using bucket_concat_sort_key[OF lt] by (simp add: b bucket_concat_def)
  have "sort_key ?f col \<noteq> []" using assms by (metis length_sort length_0_conv)
  with cc have "concat (drop 0 ?b) \<noteq> []" by simp
  from sort_first_bucket_Inr[OF this] obtain s' where
    s': "sort_first_bucket ?b 0 = Inr s'" "s' < length ?b" "concat (drop s' ?b) = concat ?b"
    by auto
  have "sort_relink ?b (Suc s') (?b ! s') = concat (drop s' ?b)"
    using s'(2) by (simp add: sort_relink_concat[OF len] Cons_nth_drop_Suc[symmetric])
  with s' cc show ?thesis
    by (simp add: sqi_sort_group_def Let_def)
qed

lemma sqi_sort_group_Nil: "sqi_sort_group [] k = Inl OutOfBounds"
proof -
  have "concat (drop 0 (sort_step1 [] k (replicate 256 []))) = []" by simp
  from sort_first_bucket_empty[OF this] show ?thesis
    by (simp add: sqi_sort_group_def)
qed

lemma component_mk_block:
  "component \<lparr>coloridx = i, data = mk_block r g b l\<rparr> 0 = r"
  "component \<lparr>coloridx = i, data = mk_block r g b l\<rparr> 1 = g"
  "component \<lparr>coloridx = i, data = mk_block r g b l\<rparr> 2 = b"
  unfolding component_def mk_block_def
  by (rule bit_word_eqI; auto simp: bit_simps dest: bit_imp_le_length)+

text \<open>
  C6. For every non-empty group and every channel index, \<^verbatim>\<open>sqi_sort_group\<close> returns a
  permutation of the group, ascending in that channel's byte value, and colours with equal
  values in the channel keep their relative order.
\<close>

theorem sqi_sort_group_stable:
  assumes "col \<noteq> []" and "k \<in> {0, 1, 2}"
  shows "\<exists>r. sqi_sort_group col k = Inr r \<and> mset r = mset col \<and>
             sorted (map (\<lambda>c. unat (component c k)) r) \<and>
             (\<forall>v. filter (\<lambda>c. component c k = v) r = filter (\<lambda>c. component c k = v) col)"
proof -
  let ?f = "\<lambda>c. unat (component c k)"
  have st: "filter (\<lambda>c. component c k = v) (sort_key ?f col) = filter (\<lambda>c. component c k = v) col"
    for v
    using sort_key_stable[of ?f "unat v" col] by (simp add: word_unat_eq_iff)
  show ?thesis
    using sqi_sort_group_sort_key[OF assms(1), of k] st by simp
qed

theorem sqi_sort_group_stable_witness:
  "\<exists>r. sqi_sort_group
          [\<lparr>coloridx = 0, data = mk_block 3 9 2 0\<rparr>, \<lparr>coloridx = 1, data = mk_block 1 7 2 0\<rparr>,
           \<lparr>coloridx = 2, data = mk_block 3 7 5 0\<rparr>] 1 = Inr r \<and>
       mset r = mset [\<lparr>coloridx = 0, data = mk_block 3 9 2 0\<rparr>, \<lparr>coloridx = 1, data = mk_block 1 7 2 0\<rparr>,
           \<lparr>coloridx = 2, data = mk_block 3 7 5 0\<rparr>] \<and>
       sorted (map (\<lambda>c. unat (component c 1)) r) \<and>
       (\<forall>v. filter (\<lambda>c. component c 1 = v) r =
            filter (\<lambda>c. component c 1 = v)
              [\<lparr>coloridx = 0, data = mk_block 3 9 2 0\<rparr>, \<lparr>coloridx = 1, data = mk_block 1 7 2 0\<rparr>,
               \<lparr>coloridx = 2, data = mk_block 3 7 5 0\<rparr>])"
  using sqi_sort_group_stable
    [of "[\<lparr>coloridx = 0, data = mk_block 3 9 2 0\<rparr>, \<lparr>coloridx = 1, data = mk_block 1 7 2 0\<rparr>,
          \<lparr>coloridx = 2, data = mk_block 3 7 5 0\<rparr>]" 1]
  by simp

section \<open>The group analyzer selects the first channel of largest spread\<close>


text \<open>The values, the spread and the sum of channel \<open>k\<close> over a group.\<close>

definition channel_values :: "sqi_colorstruc list \<Rightarrow> int \<Rightarrow> int list" where
  "channel_values g k = map (\<lambda>c. uint (component c k)) g"

definition channel_spread :: "sqi_colorstruc list \<Rightarrow> int \<Rightarrow> int" where
  "channel_spread g k = Max (set (channel_values g k)) - Min (set (channel_values g k))"

definition channel_sum :: "sqi_colorstruc list \<Rightarrow> int \<Rightarrow> int" where
  "channel_sum g k = sum_list (channel_values g k)"

lemma examine_walk_fold:
  "examine_walk g rmin rmax gmin gmax bmin bmax rs gs bs =
     ((fold min (channel_values g 0) rmin, fold max (channel_values g 0) rmax),
      (fold min (channel_values g 1) gmin, fold max (channel_values g 1) gmax),
      (fold min (channel_values g 2) bmin, fold max (channel_values g 2) bmax),
      (rs + channel_sum g 0, gs + channel_sum g 1, bs + channel_sum g 2))"
proof (induction g arbitrary: rmin rmax gmin gmax bmin bmax rs gs bs)
  case Nil
  show ?case by (simp add: channel_values_def channel_sum_def)
next
  case (Cons c g)
  have m: "(if a > v then v else a) = min v a" "(if a < v then v else a) = max v a" for a v :: int
    by (simp_all add: min_def max_def)
  show ?case
    by (simp add: Cons.IH Let_def m) (simp add: channel_values_def channel_sum_def)
qed

lemma sqi_examine_group_select:
  assumes "g \<noteq> []"
  shows "sqi_examine_group g =
     Inr (examine_select
       ((Min (set (channel_values g 0)), Max (set (channel_values g 0))),
        (Min (set (channel_values g 1)), Max (set (channel_values g 1))),
        (Min (set (channel_values g 2)), Max (set (channel_values g 2))),
        (channel_sum g 0, channel_sum g 1, channel_sum g 2)))"
proof -
  from assms obtain c rest where g: "g = c # rest" by (cases g) auto
  have cv: "channel_values (c # rest) k = uint (component c k) # channel_values rest k" for k
    by (simp add: channel_values_def)
  show ?thesis
    unfolding g sqi_examine_group_def
    by (simp add: Let_def examine_walk_fold cv Min.set_eq_fold Max.set_eq_fold channel_sum_def
             del: set_simps)
qed

text \<open>
  C7. For every non-empty group \<^verbatim>\<open>sqi_examine_group\<close> returns a channel of largest
  spread with that spread and that channel's sum; a later channel is returned only when its
  spread is strictly greater than that of every earlier channel (red, green, blue).
\<close>

theorem sqi_examine_group_largest_spread:
  assumes "g \<noteq> []"
  shows "\<exists>comp. sqi_examine_group g = Inr (comp, channel_spread g comp, channel_sum g comp) \<and>
           comp \<in> {0, 1, 2} \<and>
           (\<forall>k \<in> {0, 1, 2}. channel_spread g k \<le> channel_spread g comp) \<and>
           (\<forall>k \<in> {0, 1, 2}. k < comp \<longrightarrow> channel_spread g k < channel_spread g comp)"
  unfolding sqi_examine_group_select[OF assms] examine_select_def channel_spread_def
  by (simp add: Let_def)

theorem sqi_examine_group_largest_spread_witness:
  "[\<lparr>coloridx = 0, data = mk_block 3 9 2 0\<rparr>, \<lparr>coloridx = 1, data = mk_block 1 7 2 0\<rparr>,
    \<lparr>coloridx = 2, data = mk_block 3 7 5 0\<rparr>] \<noteq> [] \<and>
   (\<exists>comp. sqi_examine_group
        [\<lparr>coloridx = 0, data = mk_block 3 9 2 0\<rparr>, \<lparr>coloridx = 1, data = mk_block 1 7 2 0\<rparr>,
         \<lparr>coloridx = 2, data = mk_block 3 7 5 0\<rparr>] = Inr (comp, 3, 9) \<and> comp = 2)"
proof -
  let ?g = "[\<lparr>coloridx = 0, data = mk_block 3 9 2 0\<rparr>, \<lparr>coloridx = 1, data = mk_block 1 7 2 0\<rparr>,
    \<lparr>coloridx = 2, data = mk_block 3 7 5 0\<rparr>]"
  have h: "?g \<noteq> []" by simp
  have cv: "channel_values ?g 0 = [3, 1, 3]" "channel_values ?g 1 = [9, 7, 7]"
    "channel_values ?g 2 = [2, 2, 5]"
    by (simp_all add: channel_values_def component_mk_block)
  have sp: "channel_spread ?g 0 = 2" "channel_spread ?g 1 = 2" "channel_spread ?g 2 = 3"
    "channel_sum ?g 2 = 9"
    by (simp_all add: channel_spread_def channel_sum_def cv)
  from sqi_examine_group_largest_spread[OF h] obtain comp where
    c: "sqi_examine_group ?g = Inr (comp, channel_spread ?g comp, channel_sum ?g comp)"
       "comp \<in> {0, 1, 2}" "\<forall>k \<in> {0, 1, 2}. channel_spread ?g k \<le> channel_spread ?g comp"
    by blast
  from c(2,3) sp have "comp = 2" by auto
  with c(1) sp h show ?thesis by simp
qed


section \<open>The median splitter cuts before the crossing colour\<close>

text \<open>
  The median splitter as the specification words it: walk the group until the running
  total exceeds half the sum; the prefix includes the colour that caused the crossing; the
  split fails when nothing remains after the prefix.
\<close>

fun spec_crossing :: "int list \<Rightarrow> int \<Rightarrow> int \<Rightarrow> nat" where
  "spec_crossing [] half acc = 0"
| "spec_crossing (v # vs) half acc =
     (if acc + v > half then 1 else Suc (spec_crossing vs half (acc + v)))"

definition spec_cut_group ::
  "sqi_colorstruc list \<Rightarrow> int \<Rightarrow> int \<Rightarrow> error + (sqi_colorstruc list \<times> sqi_colorstruc list)" where
  "spec_cut_group g k s =
     (let n = spec_crossing (channel_values g k) (s div 2) 0 in
      if drop n g = [] then Inr (g, []) else Inr (take n g, drop n g))"

lemma channel_values_nonneg: "v \<in> set (channel_values g k) \<Longrightarrow> 0 \<le> v"
  by (auto simp: channel_values_def)

lemma cut_walk_result:
  "cut_walk g k med cnt n = Inr r \<Longrightarrow>
   \<exists>j\<le>length g. r = n + j \<and> med < cnt + sum_list (take j (channel_values g k)) \<and>
     (0 < j \<longrightarrow> cnt + sum_list (take (j - 1) (channel_values g k)) \<le> med)"
proof (induction g arbitrary: cnt n)
  case Nil
  then show ?case by (simp add: channel_values_def split: if_splits)
next
  case (Cons c g)
  show ?case
  proof (cases "cnt \<le> med")
    case True
    with Cons.prems have "cut_walk g k med (cnt + uint (component c k)) (Suc n) = Inr r" by simp
    from Cons.IH[OF this] obtain j where j: "j \<le> length g" "r = Suc n + j"
      "med < cnt + uint (component c k) + sum_list (take j (channel_values g k))"
      "0 < j \<longrightarrow> cnt + uint (component c k) + sum_list (take (j - 1) (channel_values g k)) \<le> med"
      by auto
    have cv: "channel_values (c # g) k = uint (component c k) # channel_values g k"
      by (simp add: channel_values_def)
    show ?thesis
    proof (intro exI[of _ "Suc j"] conjI)
      show "0 < Suc j \<longrightarrow> cnt + sum_list (take (Suc j - 1) (channel_values (c # g) k)) \<le> med"
        using j(4) True by (cases j) (simp_all add: cv)
    qed (use j in \<open>simp_all add: cv add.assoc\<close>)
  next
    case False
    with Cons.prems show ?thesis by (intro exI[of _ 0]) simp
  qed
qed

lemma cut_walk_returns:
  "med < cnt + channel_sum g k \<Longrightarrow> \<exists>r. cut_walk g k med cnt n = Inr r"
proof (induction g arbitrary: cnt n)
  case Nil
  then show ?case by (simp add: channel_sum_def channel_values_def)
next
  case (Cons c g)
  have "med < cnt + uint (component c k) + channel_sum g k"
    using Cons.prems by (simp add: channel_sum_def channel_values_def)
  from Cons.IH[OF this] show ?case by simp
qed

text \<open>
  C3, as amended. For every group whose sum \<open>s\<close> in the chosen channel is positive, let
  the \<open>n\<close>-th colour be the one at which the running total first exceeds \<open>s div 2\<close>.
  \<^verbatim>\<open>sqi_cut_group\<close> cuts before that colour: the group keeps the first \<open>n - 1\<close> colours
  and the returned remainder starts with the crossing colour; only when the first colour
  crosses (\<open>n = 1\<close>) the group keeps that colour and the remainder is the rest. The call
  returns \<^verbatim>\<open>NULL\<close> exactly when the group has a single colour.
\<close>

theorem sqi_cut_group_before_crossing:
  assumes "0 < channel_sum g k"
  shows "\<exists>n. 1 \<le> n \<and> n \<le> length g \<and>
           sum_list (take (n - 1) (channel_values g k)) \<le> channel_sum g k div 2 \<and>
           channel_sum g k div 2 < sum_list (take n (channel_values g k)) \<and>
           sqi_cut_group g k (channel_sum g k) =
             Inr (take (max 1 (n - 1)) g, drop (max 1 (n - 1)) g) \<and>
           (drop (max 1 (n - 1)) g = [] \<longleftrightarrow> length g = 1)"
proof -
  let ?s = "channel_sum g k"
  have "?s div 2 < 0 + ?s" using assms by simp
  from cut_walk_returns[OF this] obtain r where r: "cut_walk g k (?s div 2) 0 0 = Inr r" by blast
  from cut_walk_result[OF r] obtain j where j: "j \<le> length g" "r = j"
    "?s div 2 < sum_list (take j (channel_values g k))"
    "0 < j \<longrightarrow> sum_list (take (j - 1) (channel_values g k)) \<le> ?s div 2"
    by auto
  have j0: "0 < j" using j(3) assms by (cases j) auto
  have cut: "sqi_cut_group g k ?s = Inr (take (max 1 (j - 1)) g, drop (max 1 (j - 1)) g)"
    using assms r j(2) j0 by (auto simp: sqi_cut_group_def Let_def max_def)
  have "(drop (max 1 (j - 1)) g = []) = (length g = 1)"
    using j(1) j0 by (auto simp: max_def)
  with j j0 cut show ?thesis by (intro exI[of _ j]) simp
qed

theorem sqi_cut_group_before_crossing_witness:
  "0 < channel_sum [\<lparr>coloridx = 0, data = mk_block 1 0 0 0\<rparr>, \<lparr>coloridx = 1, data = mk_block 2 0 0 0\<rparr>,
       \<lparr>coloridx = 2, data = mk_block 3 0 0 0\<rparr>, \<lparr>coloridx = 3, data = mk_block 4 0 0 0\<rparr>] 0 \<and>
   sqi_cut_group [\<lparr>coloridx = 0, data = mk_block 1 0 0 0\<rparr>, \<lparr>coloridx = 1, data = mk_block 2 0 0 0\<rparr>,
       \<lparr>coloridx = 2, data = mk_block 3 0 0 0\<rparr>, \<lparr>coloridx = 3, data = mk_block 4 0 0 0\<rparr>] 0 10 =
     Inr ([\<lparr>coloridx = 0, data = mk_block 1 0 0 0\<rparr>, \<lparr>coloridx = 1, data = mk_block 2 0 0 0\<rparr>],
          [\<lparr>coloridx = 2, data = mk_block 3 0 0 0\<rparr>, \<lparr>coloridx = 3, data = mk_block 4 0 0 0\<rparr>])"
proof -
  let ?g = "[\<lparr>coloridx = 0, data = mk_block 1 0 0 0\<rparr>, \<lparr>coloridx = 1, data = mk_block 2 0 0 0\<rparr>,
       \<lparr>coloridx = 2, data = mk_block 3 0 0 0\<rparr>, \<lparr>coloridx = 3, data = mk_block 4 0 0 0\<rparr>]"
  have cv: "channel_values ?g 0 = [1, 2, 3, 4]"
    by (simp add: channel_values_def component_mk_block)
  have s: "channel_sum ?g 0 = 10" by (simp add: channel_sum_def cv)
  then have h: "0 < channel_sum ?g 0" by simp
  from sqi_cut_group_before_crossing[OF h] obtain n where n: "1 \<le> n" "n \<le> 4"
    "sum_list (take (n - 1) [1, 2, 3, 4::int]) \<le> 5" "5 < sum_list (take n [1, 2, 3, 4::int])"
    "sqi_cut_group ?g 0 10 = Inr (take (max 1 (n - 1)) ?g, drop (max 1 (n - 1)) ?g)"
    unfolding cv s by auto
  from n(1,2) have "n = 1 \<or> n = 2 \<or> n = 3 \<or> n = 4" by arith
  with n(3,4) have "n = 3" by auto
  with n(5) h show ?thesis by simp
qed

text \<open>
  C3, as stated, fails: on the channel values 1, 2, 3, 4 (sum 10) the third colour
  causes the crossing; the code returns it at the head of the remainder, the wording of the
  specification puts it into the prefix.
\<close>

theorem sqi_cut_group_counterexample:
  "sqi_cut_group [\<lparr>coloridx = 0, data = mk_block 1 0 0 0\<rparr>, \<lparr>coloridx = 1, data = mk_block 2 0 0 0\<rparr>,
       \<lparr>coloridx = 2, data = mk_block 3 0 0 0\<rparr>, \<lparr>coloridx = 3, data = mk_block 4 0 0 0\<rparr>] 0 10 \<noteq>
   spec_cut_group [\<lparr>coloridx = 0, data = mk_block 1 0 0 0\<rparr>, \<lparr>coloridx = 1, data = mk_block 2 0 0 0\<rparr>,
       \<lparr>coloridx = 2, data = mk_block 3 0 0 0\<rparr>, \<lparr>coloridx = 3, data = mk_block 4 0 0 0\<rparr>] 0 10"
  by (simp add: sqi_cut_group_def spec_cut_group_def channel_values_def component_mk_block)

section \<open>The split loop is bounded; the pass order of the duplicate collapser\<close>


text \<open>
  The split loop with a bound on the number of iterations it may start: \<open>None\<close> when the
  bound is used up while the loop guard still holds.
\<close>

fun split_loop_fuel :: "nat \<Rightarrow> int \<Rightarrow> split_state \<Rightarrow> (error + split_state) option" where
  "split_loop_fuel 0 palwid st = (if int (groups st) < palwid then None else Some (Inr st))"
| "split_loop_fuel (Suc fuel) palwid st =
     (if int (groups st) < palwid then
        (case split_iter st of
           Inl e \<Rightarrow> Some (Inl e)
         | Inr (True, st') \<Rightarrow> split_loop_fuel fuel palwid st'
         | Inr (False, st') \<Rightarrow> Some (Inr st'))
      else Some (Inr st))"

text \<open>Three stable sorting passes, on channel \<open>k1\<close> first and on channel \<open>k3\<close> last.\<close>

definition sort3 :: "int \<Rightarrow> int \<Rightarrow> int \<Rightarrow> sqi_colorstruc list \<Rightarrow> sqi_colorstruc list" where
  "sort3 k1 k2 k3 xs =
     sort_key (\<lambda>c. unat (component c k3)) (sort_key (\<lambda>c. unat (component c k2))
       (sort_key (\<lambda>c. unat (component c k1)) xs))"

lemma split_iter_groups:
  "split_iter st = Inr (True, st') \<Longrightarrow> groups st' = Suc (groups st)"
  by (auto simp: split_iter_def ebind_def Let_def split: if_splits sum.splits prod.splits)

lemma split_loop_fuel_enough:
  "nat (palwid - int (groups st)) \<le> fuel \<Longrightarrow>
   split_loop_fuel fuel palwid st = Some (split_loop palwid st)"
proof (induction fuel arbitrary: st)
  case 0
  then show ?case by (subst split_loop.simps) simp
next
  case (Suc fuel)
  show ?case
  proof (cases "int (groups st) < palwid")
    case True
    show ?thesis
    proof (cases "split_iter st")
      case (Inl e)
      with True show ?thesis by (subst split_loop.simps) simp
    next
      case (Inr r)
      obtain ok st' where r: "r = (ok, st')" by (cases r)
      show ?thesis
      proof (cases ok)
        case True
        from split_iter_groups Inr r True have "groups st' = Suc (groups st)" by simp
        with Suc.prems have "nat (palwid - int (groups st')) \<le> fuel" by simp
        from Suc.IH[OF this] Inr r True \<open>int (groups st) < palwid\<close> show ?thesis
          by (subst split_loop.simps) simp
      next
        case False
        with Inr r \<open>int (groups st) < palwid\<close> show ?thesis
          by (subst split_loop.simps) simp
      qed
    qed
  next
    case False
    then show ?thesis by (subst split_loop.simps) simp
  qed
qed

text \<open>
  C9. For every requested width \<open>W\<close> and every state of the arrays, the split loop ends
  within \<open>W\<close> iterations: bounded to \<open>W\<close> iterations it returns what the loop
  returns. An iteration that does not leave the loop adds one group, and the guard keeps the
  group count below \<open>W\<close>.
\<close>

theorem split_loop_terminates:
  "split_loop_fuel (nat palwid) palwid st = Some (split_loop palwid st)"
  by (rule split_loop_fuel_enough) simp

lemma sort_key_Nil_iff: "sort_key f xs = [] \<longleftrightarrow> xs = []"
  by (metis length_sort length_0_conv)

lemma sort3_Nil_iff: "sort3 a b c xs = [] \<longleftrightarrow> xs = []"
  by (simp add: sort3_def sort_key_Nil_iff)

lemma sqi_sort_group3:
  "xs \<noteq> [] \<Longrightarrow>
   ebind (sqi_sort_group xs k1) (\<lambda>f0. ebind (sqi_sort_group f0 k2) (\<lambda>f1.
     ebind (sqi_sort_group f1 k3) cont)) = cont (sort3 k1 k2 k3 xs)"
  by (simp add: sqi_sort_group_sort_key sort_key_Nil_iff ebind_def sort3_def)

lemma dupenuke_scan_remdups:
  "dupenuke_scan i (data c0) xs = (kept, dups) \<Longrightarrow>
   map data (c0 # kept) = remdups_adj (map data (c0 # xs))"
proof (induction xs arbitrary: i c0 kept dups)
  case Nil
  then show ?case by simp
next
  case (Cons x xs)
  show ?case
  proof (cases "data x = data c0")
    case True
    with Cons.prems obtain dups' where "dupenuke_scan i (data c0) xs = (kept, dups')"
      by (auto split: prod.splits)
    from Cons.IH[OF this] True show ?thesis by simp
  next
    case False
    with Cons.prems obtain kept' where k: "dupenuke_scan (coloridx x) (data x) xs = (kept', dups)"
      "kept = x # kept'"
      by (auto split: prod.splits)
    from Cons.IH[OF k(1)] False k(2) show ?thesis by simp
  qed
qed

lemma sqi_dupenuke_sorted:
  assumes "first q \<noteq> []"
  shows "sqi_dupenuke q =
     (case sort3 0 1 2 (first q) of
        col # rest \<Rightarrow>
          (case dupenuke_scan (coloridx col) (data col) rest of
             (kept, dups) \<Rightarrow>
               Inr (q\<lparr>first := col # kept, zeromap := zeromap q @ dups,
                      zeros := zeros q + int (length dups)\<rparr>)))"
  unfolding sqi_dupenuke_def sqi_sort_group3[OF assms]
  using assms by (simp add: sort3_Nil_iff split: list.splits)

text \<open>
  C5, as amended. The duplicate collapser sorts the working set by red first, then green,
  then blue, and keeps the first colour of every run of equal blocks: the blocks of the
  working set it leaves are those of the list sorted in this order, adjacent repetitions
  removed.
\<close>

theorem sqi_dupenuke_pass_order:
  assumes "first q \<noteq> []"
  shows "\<exists>q1. sqi_dupenuke q = Inr q1 \<and>
           map data (first q1) = remdups_adj (map data (sort3 0 1 2 (first q)))"
proof -
  from assms obtain col rest where s: "sort3 0 1 2 (first q) = col # rest"
    by (cases "sort3 0 1 2 (first q)") (simp_all add: sort3_Nil_iff)
  obtain kept dups where k: "dupenuke_scan (coloridx col) (data col) rest = (kept, dups)"
    by (cases "dupenuke_scan (coloridx col) (data col) rest")
  from dupenuke_scan_remdups[OF k] show ?thesis
    by (simp add: sqi_dupenuke_sorted[OF assms] s k)
qed

text \<open>Two colours, \<open>(0, 1, 0)\<close> and \<open>(0, 0, 1)\<close>, registered in this order.\<close>

definition q_two :: SQ where
  "q_two = \<lparr>first = [\<lparr>coloridx = 0, data = mk_block 0 1 0 0\<rparr>, \<lparr>coloridx = 1, data = mk_block 0 0 1 0\<rparr>],
            zeromap = [], colors = 2, zeros = 0\<rparr>"

lemma sort3_q_two:
  "sort3 0 1 2 (first q_two) = first q_two"
  "sort3 0 2 1 (first q_two) = rev (first q_two)"
  by (simp_all add: sort3_def q_two_def component_mk_block)

theorem sqi_dupenuke_pass_order_witness:
  "first q_two \<noteq> [] \<and> (\<exists>q1. sqi_dupenuke q_two = Inr q1 \<and> map data (first q1) = map data (first q_two))"
proof -
  have h: "first q_two \<noteq> []" by (simp add: q_two_def)
  have "remdups_adj (map data (first q_two)) = map data (first q_two)"
    by (simp add: q_two_def mk_block_def)
  with sqi_dupenuke_pass_order[OF h] h show ?thesis by (simp add: sort3_q_two)
qed

text \<open>
  C5, as stated, fails: the collapser leaves \<open>(0, 1, 0)\<close> before \<open>(0, 0, 1)\<close> (blue is
  its last pass); the passes red, blue, green of the specification put \<open>(0, 0, 1)\<close> first.
\<close>

theorem sqi_dupenuke_pass_order_counterexample:
  "sqi_dupenuke q_two = Inr q_two \<and> first q_two \<noteq> sort3 0 2 1 (first q_two)"
proof -
  have h: "first q_two \<noteq> []" by (simp add: q_two_def)
  have "sqi_dupenuke q_two = Inr q_two"
    unfolding sqi_dupenuke_sorted[OF h] sort3_q_two by (simp add: q_two_def mk_block_def)
  moreover have "first q_two \<noteq> sort3 0 2 1 (first q_two)"
    unfolding sort3_q_two by (simp add: q_two_def mk_block_def)
  ultimately show ?thesis by simp
qed

definition rgb :: "sqi_colorstruc \<Rightarrow> u8 \<times> u8 \<times> u8" where
  "rgb c = (component c 0, component c 1, component c 2)"

fun sq_register :: "SQ \<Rightarrow> (u8 list \<times> int \<times> int) list \<Rightarrow> error + SQ" where
  "sq_register q [] = Inr q"
| "sq_register q ((colmap, ncolors, stride) # maps) =
     (case sq_addcolormap q colmap ncolors stride of
        Inl e \<Rightarrow> Inl e
      | Inr (ret, q') \<Rightarrow> sq_register q' maps)"

definition rgb_node :: "sqi_colorstruc \<Rightarrow> bool" where
  "rgb_node c \<longleftrightarrow> data c = mk_block (component c 0) (component c 1) (component c 2) 0"

definition sq_wf :: "SQ \<Rightarrow> bool" where
  "sq_wf q \<longleftrightarrow>
     zeromap q = [] \<and> zeros q = 0 \<and> colors q = int (length (first q)) \<and>
     map coloridx (first q) = map int [0..<length (first q)] \<and>
     (\<forall>c \<in> set (first q). rgb_node c)"

definition key3 :: "sqi_colorstruc \<Rightarrow> nat" where
  "key3 c = (unat (component c 2) * 256 + unat (component c 1)) * 256 + unat (component c 0)"

lemma rgb_node_data_eq:
  "rgb_node c \<Longrightarrow> rgb_node d \<Longrightarrow> data c = data d \<longleftrightarrow> rgb c = rgb d"
  by (auto simp: rgb_node_def rgb_def component_def)

lemma rgb_node_mk_block: "rgb_node \<lparr>coloridx = i, data = mk_block r g b 0\<rparr>"
  by (simp add: rgb_node_def component_mk_block)

lemma u8_bound: "unat (x :: u8) < 256"
  using unsigned_less[of x, where 'a=nat] by simp

lemma radix_inj:
  fixes x c x' c' m :: nat
  assumes "c < m" "c' < m" "x * m + c = x' * m + c'"
  shows "x = x' \<and> c = c'"
proof -
  from assms(3) have "(x * m + c) div m = (x' * m + c') div m" "(x * m + c) mod m = (x' * m + c') mod m"
    by simp_all
  with assms(1,2) show ?thesis by simp
qed

lemma key3_eq_rgb: "key3 c = key3 d \<longleftrightarrow> rgb c = rgb d"
proof
  assume e: "key3 c = key3 d"
  have 1: "unat (component c 2) * 256 + unat (component c 1) = unat (component d 2) * 256 + unat (component d 1)
     \<and> unat (component c 0) = unat (component d 0)"
    using e unfolding key3_def by (intro radix_inj[OF u8_bound u8_bound])
  then have 2: "unat (component c 2) = unat (component d 2) \<and> unat (component c 1) = unat (component d 1)"
    by (intro radix_inj[OF u8_bound u8_bound]) simp
  from 1 2 show "rgb c = rgb d" by (simp add: rgb_def word_unat_eq_iff)
next
  assume "rgb c = rgb d"
  then show "key3 c = key3 d" by (simp add: rgb_def key3_def)
qed

lemma key3_eq_data: "rgb_node c \<Longrightarrow> rgb_node d \<Longrightarrow> key3 c = key3 d \<longleftrightarrow> data c = data d"
  by (simp add: key3_eq_rgb rgb_node_data_eq)

lemma sq_wf_alloc: "sq_wf sq_alloc"
  by (simp add: sq_wf_def sq_alloc_def)

lemma sq_wf_add_color: "sq_wf q \<Longrightarrow> sq_wf (sqi_add_color q r g b)"
  by (simp add: sq_wf_def sqi_add_color_def rgb_node_mk_block)

lemma sq_wf_addcolormap_loop:
  "sq_wf q \<Longrightarrow> sq_addcolormap_loop q colmap ncolors stride a = Inr q' \<Longrightarrow> sq_wf q'"
proof (induction q colmap ncolors stride a rule: sq_addcolormap_loop.induct)
  case (1 q colmap ncolors stride a)
  show ?case
  proof (cases "a < ncolors")
    case True
    from "1.prems"(2) True obtain r g b where
      r: "load colmap (a * stride + 0) = Inr r" and g: "load colmap (a * stride + 1) = Inr g"
      and b: "load colmap (a * stride + 2) = Inr b"
      and rec: "sq_addcolormap_loop (sqi_add_color q r g b) colmap ncolors stride (a + 1) = Inr q'"
      by (subst (asm) sq_addcolormap_loop.simps) (auto split: sum.splits)
    from "1.IH"[OF True r g b sq_wf_add_color[OF "1.prems"(1)] rec] show ?thesis .
  next
    case False
    with "1.prems" show ?thesis
      by (subst (asm) sq_addcolormap_loop.simps) simp
  qed
qed

lemma sq_wf_addcolormap:
  "sq_wf q \<Longrightarrow> sq_addcolormap q colmap ncolors stride = Inr (ret, q') \<Longrightarrow> sq_wf q'"
  by (auto simp: sq_addcolormap_def split: sum.splits dest: sq_wf_addcolormap_loop)

lemma sq_wf_register: "sq_wf q \<Longrightarrow> sq_register q maps = Inr q' \<Longrightarrow> sq_wf q'"
proof (induction maps arbitrary: q)
  case Nil
  then show ?case by simp
next
  case (Cons m maps)
  obtain colmap ncolors stride where m: "m = (colmap, ncolors, stride)" by (cases m)
  from Cons.prems(2) obtain ret q1 where
    a: "sq_addcolormap q colmap ncolors stride = Inr (ret, q1)" and r: "sq_register q1 maps = Inr q'"
    by (auto simp: m split: sum.splits)
  from Cons.IH[OF sq_wf_addcolormap[OF Cons.prems(1) a] r] show ?case .
qed

text \<open>Stable passes refine the order: two passes sort by the pair of keys.\<close>

lemma insort_key_refines:
  fixes f g :: "'a \<Rightarrow> nat"
  assumes "sorted (map (\<lambda>y. f y * m + g y) ys)" and "\<forall>y \<in> set ys. g x \<le> g y"
    and "\<forall>y \<in> set ys. g y < m"
  shows "sorted (map (\<lambda>y. f y * m + g y) (insort_key f x ys))"
  using assms
proof (induction ys)
  case Nil
  then show ?case by simp
next
  case (Cons y ys)
  show ?case
  proof (cases "f x \<le> f y")
    case True
    then have "f x * m \<le> f y * m" by simp
    moreover have "g x \<le> g y" using Cons.prems by simp
    ultimately have "f x * m + g x \<le> f y * m + g y" by (rule add_mono)
    with Cons.prems True show ?thesis by auto
  next
    case False
    then have "Suc (f y) \<le> f x" by simp
    then have "Suc (f y) * m \<le> f x * m" by (rule mult_le_mono1)
    moreover have "g y < m" using Cons.prems by simp
    ultimately have "f y * m + g y \<le> f x * m + g x" by simp
    with Cons False show ?thesis by (auto simp: set_insort_key)
  qed
qed

lemma sort_key_refines:
  fixes f g :: "'a \<Rightarrow> nat"
  assumes "sorted (map g xs)" and "\<forall>y \<in> set xs. g y < m"
  shows "sorted (map (\<lambda>y. f y * m + g y) (sort_key f xs))"
  using assms
proof (induction xs)
  case Nil
  then show ?case by simp
next
  case (Cons x xs)
  have "sorted (map (\<lambda>y. f y * m + g y) (insort_key f x (sort_key f xs)))"
    using Cons by (intro insort_key_refines) auto
  then show ?case by simp
qed

lemma sort3_sorted_key3: "sorted (map key3 (sort3 0 1 2 xs))"
proof -
  let ?f0 = "\<lambda>c. unat (component c 0)" and ?f1 = "\<lambda>c. unat (component c 1)"
  let ?f2 = "\<lambda>c. unat (component c 2)"
  have 1: "sorted (map ?f0 (sort_key ?f0 xs))" by (rule sorted_sort_key)
  have 2: "sorted (map (\<lambda>c. ?f1 c * 256 + ?f0 c) (sort_key ?f1 (sort_key ?f0 xs)))"
    using 1 by (rule sort_key_refines) (simp add: u8_bound)
  have b: "?f1 c * 256 + ?f0 c < 65536" for c
    using u8_bound[of "component c 1"] u8_bound[of "component c 0"] by arith
  have "sorted (map (\<lambda>c. ?f2 c * 65536 + (?f1 c * 256 + ?f0 c))
                  (sort_key ?f2 (sort_key ?f1 (sort_key ?f0 xs))))"
    using 2 by (rule sort_key_refines) (simp add: b)
  then show ?thesis
    by (simp add: sort3_def key3_def[abs_def] algebra_simps)
qed

lemma sort3_mset: "mset (sort3 a b c xs) = mset xs"
  by (simp add: sort3_def)

lemma sort3_set: "set (sort3 a b c xs) = set xs"
  by (simp add: sort3_def)

lemma sort3_length: "length (sort3 a b c xs) = length xs"
  by (simp add: sort3_def)

text \<open>A stable pass leaves the nodes of one colour in their order.\<close>

lemma sort_key_filter_const:
  assumes "\<forall>x. P x \<longrightarrow> f x = v"
  shows "filter P (sort_key f xs) = filter P xs"
proof -
  have "filter P (sort_key f xs) = filter P (filter (\<lambda>x. f x = v) (sort_key f xs))"
    using assms by (simp add: conj_commute) (metis (mono_tags, lifting) filter_cong)
  also have "\<dots> = filter P (filter (\<lambda>x. f x = v) xs)"
    by (simp only: sort_key_stable)
  also have "\<dots> = filter P xs"
    using assms by (simp add: conj_commute) (metis (mono_tags, lifting) filter_cong)
  finally show ?thesis .
qed

lemma sort3_filter_data:
  "filter (\<lambda>c. data c = v) (sort3 a b c xs) = filter (\<lambda>c. data c = v) xs"
  unfolding sort3_def
  by (simp add: sort_key_filter_const[where v="unat (ucast (drop_bit (8 * nat c) v) :: u8)"]
                sort_key_filter_const[where v="unat (ucast (drop_bit (8 * nat b) v) :: u8)"]
                sort_key_filter_const[where v="unat (ucast (drop_bit (8 * nat a) v) :: u8)"]
                component_def)

lemma dupenuke_scan_induct [consumes 1, case_names Nil Dup Keep]:
  assumes "dupenuke_scan (coloridx c0) (data c0) xs = (kept, dups)"
    and "\<And>c0. P c0 [] [] []"
    and "\<And>c0 x xs kept dups. data x = data c0 \<Longrightarrow>
           dupenuke_scan (coloridx c0) (data c0) xs = (kept, dups) \<Longrightarrow> P c0 xs kept dups \<Longrightarrow>
           P c0 (x # xs) kept (x\<lparr>data := word_of_int (coloridx c0)\<rparr> # dups)"
    and "\<And>c0 x xs kept dups. data x \<noteq> data c0 \<Longrightarrow>
           dupenuke_scan (coloridx x) (data x) xs = (kept, dups) \<Longrightarrow> P x xs kept dups \<Longrightarrow>
           P c0 (x # xs) (x # kept) dups"
  shows "P c0 xs kept dups"
  using assms(1)
proof (induction xs arbitrary: c0 kept dups)
  case Nil
  then show ?case using assms(2) by simp
next
  case (Cons x xs)
  show ?case
  proof (cases "data x = data c0")
    case True
    with Cons.prems obtain dups' where d: "dupenuke_scan (coloridx c0) (data c0) xs = (kept, dups')"
      "dups = x\<lparr>data := word_of_int (coloridx c0)\<rparr> # dups'"
      by (auto split: prod.splits)
    from assms(3)[OF True d(1) Cons.IH[OF d(1)]] d(2) show ?thesis by simp
  next
    case False
    with Cons.prems obtain kept' where k: "dupenuke_scan (coloridx x) (data x) xs = (kept', dups)"
      "kept = x # kept'"
      by (auto split: prod.splits)
    from assms(4)[OF False k(1) Cons.IH[OF k(1)]] k(2) show ?thesis by simp
  qed
qed

lemma dupenuke_scan_length:
  "dupenuke_scan (coloridx (c0 :: sqi_colorstruc)) (data c0) xs = (kept, dups) \<Longrightarrow>
   length kept + length dups = length xs"
  by (induction c0 xs kept dups rule: dupenuke_scan_induct) simp_all

lemma dupenuke_scan_coloridx:
  "dupenuke_scan (coloridx (c0 :: sqi_colorstruc)) (data c0) xs = (kept, dups) \<Longrightarrow>
   mset (map coloridx kept) + mset (map coloridx dups) = mset (map coloridx xs)"
  by (induction c0 xs kept dups rule: dupenuke_scan_induct) simp_all

lemma dupenuke_scan_kept_subset:
  "dupenuke_scan (coloridx (c0 :: sqi_colorstruc)) (data c0) xs = (kept, dups) \<Longrightarrow> set kept \<subseteq> set xs"
  by (induction c0 xs kept dups rule: dupenuke_scan_induct) auto

text \<open>Every scanned node is kept, or sits in the zero list with a reference to a kept node of its colour.\<close>

lemma dupenuke_scan_covers:
  "dupenuke_scan (coloridx c0) (data c0) xs = (kept, dups) \<Longrightarrow>
   \<forall>x \<in> set xs. x \<in> set kept \<or>
     (\<exists>d \<in> set dups. \<exists>s \<in> set (c0 # kept).
        coloridx d = coloridx x \<and> data d = word_of_int (coloridx s) \<and> data s = data x)"
proof (induction c0 xs kept dups rule: dupenuke_scan_induct)
  case (Nil c0)
  show ?case by simp
next
  case (Dup c0 x xs kept dups)
  let ?d = "x\<lparr>data := word_of_int (coloridx c0)\<rparr>"
  show ?case
  proof
    fix y assume "y \<in> set (x # xs)"
    then consider "y = x" | "y \<in> set xs" by auto
    then show "y \<in> set kept \<or> (\<exists>d \<in> set (?d # dups). \<exists>s \<in> set (c0 # kept).
        coloridx d = coloridx y \<and> data d = word_of_int (coloridx s) \<and> data s = data y)"
    proof cases
      case 1
      have "coloridx ?d = coloridx y \<and> data ?d = word_of_int (coloridx c0) \<and> data c0 = data y"
        using 1 Dup.hyps(1) by simp
      then show ?thesis by (intro disjI2 bexI[of _ ?d] bexI[of _ c0]) simp_all
    next
      case 2
      with Dup.IH show ?thesis by fastforce
    qed
  qed
next
  case (Keep c0 x xs kept dups)
  show ?case
  proof
    fix y assume "y \<in> set (x # xs)"
    then consider "y = x" | "y \<in> set xs" by auto
    then show "y \<in> set (x # kept) \<or> (\<exists>d \<in> set dups. \<exists>s \<in> set (c0 # x # kept).
        coloridx d = coloridx y \<and> data d = word_of_int (coloridx s) \<and> data s = data y)"
    proof cases
      case 1
      then show ?thesis by simp
    next
      case 2
      with Keep.IH show ?thesis by fastforce
    qed
  qed
qed

lemma dupenuke_scan_dups:
  "dupenuke_scan (coloridx c0) (data c0) xs = (kept, dups) \<Longrightarrow>
   \<forall>d \<in> set dups. \<exists>s \<in> set (c0 # kept). \<exists>x \<in> set xs.
     d = x\<lparr>data := word_of_int (coloridx s)\<rparr> \<and> data x = data s"
proof (induction c0 xs kept dups rule: dupenuke_scan_induct)
  case (Nil c0)
  show ?case by simp
next
  case (Dup c0 x xs kept dups)
  let ?d = "x\<lparr>data := word_of_int (coloridx c0)\<rparr>"
  show ?case
  proof
    fix d assume "d \<in> set (?d # dups)"
    then consider "d = ?d" | "d \<in> set dups" by auto
    then show "\<exists>s \<in> set (c0 # kept). \<exists>y \<in> set (x # xs).
       d = y\<lparr>data := word_of_int (coloridx s)\<rparr> \<and> data y = data s"
    proof cases
      case 1
      with Dup.hyps(1) show ?thesis by (intro bexI[of _ c0] bexI[of _ x]) simp_all
    next
      case 2
      with Dup.IH show ?thesis by fastforce
    qed
  qed
next
  case (Keep c0 x xs kept dups)
  show ?case
  proof
    fix d assume "d \<in> set dups"
    with Keep.IH show "\<exists>s \<in> set (c0 # x # kept). \<exists>y \<in> set (x # xs).
       d = y\<lparr>data := word_of_int (coloridx s)\<rparr> \<and> data y = data s"
      by fastforce
  qed
qed

text \<open>On a list sorted by \<open>key3\<close> the kept nodes are strictly sorted, and each is the first of its block.\<close>

lemma dupenuke_scan_strict:
  "dupenuke_scan (coloridx c0) (data c0) xs = (kept, dups) \<Longrightarrow>
   sorted (map key3 (c0 # xs)) \<Longrightarrow> \<forall>x \<in> set (c0 # xs). rgb_node x \<Longrightarrow>
   sorted_wrt (<) (map key3 (c0 # kept))"
proof (induction c0 xs kept dups rule: dupenuke_scan_induct)
  case (Nil c0)
  show ?case by simp
next
  case (Dup c0 x xs kept dups)
  then show ?case by simp
next
  case (Keep c0 x xs kept dups)
  from Keep.prems Keep.hyps(1) have "key3 c0 \<noteq> key3 x"
    by (simp add: key3_eq_data)
  with Keep.prems have lt: "key3 c0 < key3 x" by simp
  from Keep have s: "sorted_wrt (<) (map key3 (x # kept))" by simp
  with lt show ?case by auto
qed

lemma dupenuke_scan_first_of_block:
  "dupenuke_scan (coloridx c0) (data c0) xs = (kept, dups) \<Longrightarrow>
   sorted (map key3 (c0 # xs)) \<Longrightarrow> \<forall>x \<in> set (c0 # xs). rgb_node x \<Longrightarrow>
   \<forall>s \<in> set (c0 # kept). \<exists>zs. filter (\<lambda>c. data c = data s) (c0 # xs) = s # zs"
proof (induction c0 xs kept dups rule: dupenuke_scan_induct)
  case (Nil c0)
  show ?case by simp
next
  case (Dup c0 x xs kept dups)
  have st: "sorted_wrt (<) (map key3 (c0 # kept))"
    using dupenuke_scan_strict[OF Dup.hyps(2)] Dup.prems by simp
  have rn: "\<forall>s \<in> set kept. rgb_node s"
    using dupenuke_scan_kept_subset[OF Dup.hyps(2)] Dup.prems by auto
  have ne: "data s \<noteq> data c0" if "s \<in> set kept" for s
  proof -
    from st that have "key3 c0 \<noteq> key3 s" by auto
    moreover from rn that have "rgb_node s" by blast
    moreover from Dup.prems have "rgb_node c0" by simp
    ultimately show ?thesis by (simp add: key3_eq_data)
  qed
  from Dup.IH Dup.prems have ih: "\<forall>s \<in> set (c0 # kept). \<exists>zs. filter (\<lambda>c. data c = data s) (c0 # xs) = s # zs"
    by simp
  show ?case
  proof
    fix s assume "s \<in> set (c0 # kept)"
    then consider "s = c0" | "s \<in> set kept" by auto
    then show "\<exists>zs. filter (\<lambda>c. data c = data s) (c0 # x # xs) = s # zs"
    proof cases
      case 1
      then show ?thesis by simp
    next
      case 2
      with ih obtain zs where "filter (\<lambda>c. data c = data s) (c0 # xs) = s # zs" by auto
      with ne[OF 2] Dup.hyps(1) show ?thesis by (simp split: if_splits)
    qed
  qed
next
  case (Keep c0 x xs kept dups)
  have st: "sorted_wrt (<) (map key3 (x # kept))"
    using dupenuke_scan_strict[OF Keep.hyps(2)] Keep.prems by simp
  have rn: "\<forall>s \<in> set (x # kept). rgb_node s"
    using dupenuke_scan_kept_subset[OF Keep.hyps(2)] Keep.prems by auto
  from Keep.prems Keep.hyps(1) have "key3 c0 \<noteq> key3 x"
    by (simp add: key3_eq_data)
  with Keep.prems have lt: "key3 c0 < key3 x" by simp
  have ne: "data s \<noteq> data c0" if "s \<in> set (x # kept)" for s
  proof -
    from st lt that have "key3 c0 < key3 s" by auto
    then have "key3 c0 \<noteq> key3 s" by simp
    moreover from rn that have "rgb_node s" by blast
    moreover from Keep.prems have "rgb_node c0" by simp
    ultimately show ?thesis by (simp add: key3_eq_data)
  qed
  from Keep.IH Keep.prems have ih: "\<forall>s \<in> set (x # kept). \<exists>zs. filter (\<lambda>c. data c = data s) (x # xs) = s # zs"
    by simp
  show ?case
  proof
    fix s assume "s \<in> set (c0 # x # kept)"
    then consider "s = c0" | "s \<in> set (x # kept)" by auto
    then show "\<exists>zs. filter (\<lambda>c. data c = data s) (c0 # x # xs) = s # zs"
    proof cases
      case 1
      then show ?thesis by simp
    next
      case 2
      with ih obtain zs where "filter (\<lambda>c. data c = data s) (x # xs) = s # zs" by auto
      with ne[OF 2] show ?thesis by (simp split: if_splits)
    qed
  qed
qed

definition deduped :: "SQ \<Rightarrow> SQ \<Rightarrow> bool" where
  "deduped q q1 \<longleftrightarrow>
     colors q1 = colors q \<and> zeros q1 = int (length (zeromap q1)) \<and>
     length (first q1) + length (zeromap q1) = length (first q) \<and>
     first q1 \<noteq> [] \<and> set (first q1) \<subseteq> set (first q) \<and>
     distinct (map data (first q1)) \<and>
     mset (map coloridx (first q1 @ zeromap q1)) = mset (map coloridx (first q)) \<and>
     (\<forall>d \<in> set (zeromap q1). \<exists>s \<in> set (first q1). \<exists>x \<in> set (first q).
        d = x\<lparr>data := word_of_int (coloridx s)\<rparr> \<and> data x = data s) \<and>
     (\<forall>x \<in> set (first q). x \<in> set (first q1) \<or>
        (\<exists>d \<in> set (zeromap q1). \<exists>s \<in> set (first q1).
           coloridx d = coloridx x \<and> data d = word_of_int (coloridx s) \<and> data s = data x)) \<and>
     (\<forall>s \<in> set (first q1). \<forall>c \<in> set (first q). data c = data s \<longrightarrow> coloridx s \<le> coloridx c)"

lemma distinct_map_transfer:
  assumes "distinct (map f xs)"
    and "\<forall>x \<in> set xs. \<forall>y \<in> set xs. g x = g y \<longrightarrow> f x = f y"
  shows "distinct (map g xs)"
proof -
  from assms(1) have d: "distinct xs" and i: "inj_on f (set xs)"
    by (simp_all add: distinct_map)
  have "inj_on g (set xs)"
  proof (rule inj_onI)
    fix x y assume "x \<in> set xs" "y \<in> set xs" "g x = g y"
    with assms(2) have "f x = f y" by blast
    from inj_onD[OF i this \<open>x \<in> set xs\<close> \<open>y \<in> set xs\<close>] show "x = y" .
  qed
  with d show ?thesis by (simp add: distinct_map)
qed

lemma sqi_dupenuke_deduped:
  assumes wf: "sq_wf q" and ne: "first q \<noteq> []"
  shows "\<exists>q1. sqi_dupenuke q = Inr q1 \<and> deduped q q1"
proof -
  let ?L = "sort3 0 1 2 (first q)"
  from ne obtain c0 xs where L: "?L = c0 # xs"
    by (cases ?L) (simp_all add: sort3_Nil_iff)
  obtain kept dups where k: "dupenuke_scan (coloridx c0) (data c0) xs = (kept, dups)"
    by (cases "dupenuke_scan (coloridx c0) (data c0) xs")
  let ?q1 = "q\<lparr>first := c0 # kept, zeromap := zeromap q @ dups,
                zeros := zeros q + int (length dups)\<rparr>"
  have d: "sqi_dupenuke q = Inr ?q1"
    by (simp add: sqi_dupenuke_sorted[OF ne] L k)
  have z: "zeromap q = []" "zeros q = 0" using wf by (simp_all add: sq_wf_def)
  have setL: "set (c0 # xs) = set (first q)" using sort3_set[of 0 1 2 "first q"] L by simp
  have rn: "\<forall>x \<in> set (c0 # xs). rgb_node x" using wf setL by (simp add: sq_wf_def)
  have so: "sorted (map key3 (c0 # xs))" using sort3_sorted_key3[of "first q"] L by simp
  have sub: "set kept \<subseteq> set xs" by (rule dupenuke_scan_kept_subset[OF k])
  have len: "length (c0 # kept) + length dups = length (first q)"
    using dupenuke_scan_length[OF k] sort3_length[of 0 1 2 "first q"] L by simp
  have "distinct (map key3 (c0 # kept))"
    using dupenuke_scan_strict[OF k so rn] strict_sorted_iff by blast
  moreover have "\<forall>x \<in> set (c0 # kept). \<forall>y \<in> set (c0 # kept). data x = data y \<longrightarrow> key3 x = key3 y"
  proof (intro ballI impI)
    fix x y assume "x \<in> set (c0 # kept)" "y \<in> set (c0 # kept)" "data x = data y"
    moreover from this sub rn have "rgb_node x" "rgb_node y" by auto
    ultimately show "key3 x = key3 y" by (simp add: key3_eq_data)
  qed
  ultimately have dist: "distinct (map data (c0 # kept))"
    by (rule distinct_map_transfer)
  have "mset (map coloridx (c0 # xs)) = mset (map coloridx (first q))"
    using arg_cong[OF sort3_mset[of 0 1 2 "first q"], of "image_mset coloridx"] L by simp
  then have ci: "mset (map coloridx ((c0 # kept) @ dups)) = mset (map coloridx (first q))"
    using dupenuke_scan_coloridx[OF k] by (simp add: ac_simps)
  have du: "\<forall>d \<in> set dups. \<exists>s \<in> set (c0 # kept). \<exists>x \<in> set (first q).
        d = x\<lparr>data := word_of_int (coloridx s)\<rparr> \<and> data x = data s"
  proof
    fix d assume "d \<in> set dups"
    with dupenuke_scan_dups[OF k] obtain s x where "s \<in> set (c0 # kept)" "x \<in> set xs"
      "d = x\<lparr>data := word_of_int (coloridx s)\<rparr> \<and> data x = data s" by blast
    moreover from this setL have "x \<in> set (first q)" by auto
    ultimately show "\<exists>s \<in> set (c0 # kept). \<exists>x \<in> set (first q).
        d = x\<lparr>data := word_of_int (coloridx s)\<rparr> \<and> data x = data s" by blast
  qed
  have co: "\<forall>x \<in> set (first q). x \<in> set (c0 # kept) \<or>
        (\<exists>d \<in> set dups. \<exists>s \<in> set (c0 # kept).
           coloridx d = coloridx x \<and> data d = word_of_int (coloridx s) \<and> data s = data x)"
  proof
    fix x assume "x \<in> set (first q)"
    with setL have "x = c0 \<or> x \<in> set xs" by auto
    then show "x \<in> set (c0 # kept) \<or>
        (\<exists>d \<in> set dups. \<exists>s \<in> set (c0 # kept).
           coloridx d = coloridx x \<and> data d = word_of_int (coloridx s) \<and> data s = data x)"
    proof
      assume "x = c0" then show ?thesis by simp
    next
      assume "x \<in> set xs"
      with dupenuke_scan_covers[OF k] show ?thesis by auto
    qed
  qed
  have srt: "sorted (map coloridx (first q))"
  proof -
    have "map coloridx (first q) = map int [0..<length (first q)]" using wf by (simp add: sq_wf_def)
    moreover have "sorted (map int [0..<n])" for n
      by (induction n) (auto simp: sorted_append)
    ultimately show ?thesis by simp
  qed
  have fs: "\<forall>s \<in> set (c0 # kept). \<forall>c \<in> set (first q). data c = data s \<longrightarrow> coloridx s \<le> coloridx c"
  proof (intro ballI impI)
    fix s c assume s: "s \<in> set (c0 # kept)" and c: "c \<in> set (first q)" "data c = data s"
    from dupenuke_scan_first_of_block[OF k so rn] s obtain zs where
      "filter (\<lambda>c. data c = data s) (c0 # xs) = s # zs" by blast
    then have f: "filter (\<lambda>c. data c = data s) (first q) = s # zs"
      using sort3_filter_data[of "data s" 0 1 2 "first q"] L by simp
    have "sorted (map coloridx (filter (\<lambda>c. data c = data s) (first q)))"
      using srt by (rule sorted_filter)
    with f have "\<forall>y \<in> set zs. coloridx s \<le> coloridx y" by simp
    moreover from c have "c \<in> set (filter (\<lambda>c. data c = data s) (first q))" by simp
    ultimately show "coloridx s \<le> coloridx c" using f by auto
  qed
  have s1: "set (c0 # kept) \<subseteq> set (first q)" using sub setL by auto
  have f1: "first ?q1 = c0 # kept" and f2: "zeromap ?q1 = dups" and f3: "colors ?q1 = colors q"
    and f4: "zeros ?q1 = int (length dups)"
    by (simp_all add: z)
  have "deduped q ?q1"
    unfolding deduped_def f1 f2 f3 f4
  proof (intro conjI)
    show "length (c0 # kept) + length dups = length (first q)" by (rule len)
    show "set (c0 # kept) \<subseteq> set (first q)" by (rule s1)
    show "distinct (map data (c0 # kept))" by (rule dist)
    show "mset (map coloridx ((c0 # kept) @ dups)) = mset (map coloridx (first q))" by (rule ci)
    show "\<forall>d \<in> set dups. \<exists>s \<in> set (c0 # kept). \<exists>x \<in> set (first q).
        d = x\<lparr>data := word_of_int (coloridx s)\<rparr> \<and> data x = data s" by (rule du)
    show "\<forall>x \<in> set (first q). x \<in> set (c0 # kept) \<or>
        (\<exists>d \<in> set dups. \<exists>s \<in> set (c0 # kept).
           coloridx d = coloridx x \<and> data d = word_of_int (coloridx s) \<and> data s = data x)" by (rule co)
    show "\<forall>s \<in> set (c0 # kept). \<forall>c \<in> set (first q). data c = data s \<longrightarrow> coloridx s \<le> coloridx c"
      by (rule fs)
  qed simp_all
  with d show ?thesis by (intro exI[of _ ?q1] conjI)
qed

lemma store_Inr: "0 \<le> i \<Longrightarrow> i < int (length xs) \<Longrightarrow> store xs i v = Inr (xs[nat i := v])"
  by (simp add: store_def)

lemma load_Inr: "0 \<le> i \<Longrightarrow> i < int (length xs) \<Longrightarrow> load xs i = Inr (xs ! nat i)"
  by (simp add: load_def)

lemma uint_less_iff_unat: "uint (w :: 'a::len word) < int n \<longleftrightarrow> unat w < n"
  by (metis of_nat_less_iff of_nat_unat)

lemma unat_neq_nat: "uint (w :: 'a::len word) \<noteq> c \<Longrightarrow> 0 \<le> c \<Longrightarrow> unat w \<noteq> nat c"
  by (metis int_nat_eq of_nat_unat)

lemma load_uint: "unat w < length xs \<Longrightarrow> load xs (uint w) = Inr (xs ! unat w)"
  by (simp add: load_def uint_less_iff_unat)

lemma store_rgb_Inr:
  assumes "0 \<le> i" and "i * 3 + 2 < int (length pal)"
  shows "\<exists>pal'. store_rgb pal i r g b = Inr pal' \<and> length pal' = length pal"
  using assms by (simp add: store_rgb_def ebind_def store_Inr)

lemma fits_fill_Inr:
  assumes "\<forall>c \<in> set f. 0 \<le> coloridx c \<and> coloridx c < int (length idxmap)"
    and "distinct (map coloridx f)" and "0 \<le> i0"
    and "(i0 + int (length f)) * 3 \<le> int (length pal)"
  shows "\<exists>idxmap' pal'. fits_fill f i0 idxmap pal = Inr (idxmap', pal') \<and>
           length idxmap' = length idxmap \<and> length pal' = length pal \<and>
           (\<forall>j < length f. idxmap' ! nat (coloridx (f ! j)) = word_of_int (i0 + int j)) \<and>
           (\<forall>n. int n \<notin> coloridx ` set f \<longrightarrow> idxmap' ! n = idxmap ! n)"
  using assms
proof (induction f arbitrary: i0 idxmap pal)
  case Nil
  then show ?case by simp
next
  case (Cons c f)
  let ?m1 = "idxmap[nat (coloridx c) := word_of_int i0]"
  have c: "0 \<le> coloridx c" "coloridx c < int (length idxmap)" using Cons.prems(1) by simp_all
  have st: "store idxmap (coloridx c) (word_of_int i0) = Inr ?m1"
    using c by (rule store_Inr)
  have "i0 * 3 + 2 < int (length pal)" using Cons.prems(4) by simp
  from store_rgb_Inr[OF Cons.prems(3) this] obtain pal1 where
    p1: "store_rgb pal i0 (component c 0) (component c 1) (component c 2) = Inr pal1"
      "length pal1 = length pal" by blast
  have "\<exists>idxmap' pal'. fits_fill f (i0 + 1) ?m1 pal1 = Inr (idxmap', pal') \<and>
           length idxmap' = length ?m1 \<and> length pal' = length pal1 \<and>
           (\<forall>j < length f. idxmap' ! nat (coloridx (f ! j)) = word_of_int (i0 + 1 + int j)) \<and>
           (\<forall>n. int n \<notin> coloridx ` set f \<longrightarrow> idxmap' ! n = ?m1 ! n)"
    using Cons.prems by (intro Cons.IH) (simp_all add: p1)
  then obtain idxmap' pal' where r: "fits_fill f (i0 + 1) ?m1 pal1 = Inr (idxmap', pal')"
    "length idxmap' = length idxmap" "length pal' = length pal"
    "\<forall>j < length f. idxmap' ! nat (coloridx (f ! j)) = word_of_int (i0 + 1 + int j)"
    "\<forall>n. int n \<notin> coloridx ` set f \<longrightarrow> idxmap' ! n = ?m1 ! n"
    by (auto simp: p1)
  have notin: "coloridx c \<notin> coloridx ` set f" using Cons.prems(2) by simp
  have hd: "idxmap' ! nat (coloridx c) = word_of_int i0"
  proof -
    have "int (nat (coloridx c)) \<notin> coloridx ` set f" using notin c by simp
    with r(5) have "idxmap' ! nat (coloridx c) = ?m1 ! nat (coloridx c)" by blast
    also have "\<dots> = word_of_int i0" using c by simp
    finally show ?thesis .
  qed
  have all: "\<forall>j < length (c # f). idxmap' ! nat (coloridx ((c # f) ! j)) = word_of_int (i0 + int j)"
  proof (intro allI impI)
    fix j assume "j < length (c # f)"
    show "idxmap' ! nat (coloridx ((c # f) ! j)) = word_of_int (i0 + int j)"
    proof (cases j)
      case 0
      with hd show ?thesis by simp
    next
      case (Suc j')
      with \<open>j < length (c # f)\<close> r(4) show ?thesis by (simp add: add.assoc add.commute)
    qed
  qed
  have unch: "\<forall>n. int n \<notin> coloridx ` set (c # f) \<longrightarrow> idxmap' ! n = idxmap ! n"
  proof (intro allI impI)
    fix n assume n: "int n \<notin> coloridx ` set (c # f)"
    then have "int n \<notin> coloridx ` set f" and "n \<noteq> nat (coloridx c)" using c by auto
    with r(5) show "idxmap' ! n = idxmap ! n" by simp
  qed
  show ?case
    using st p1(1) r(1,2,3) all unch by (intro exI[of _ idxmap'] exI[of _ pal']) simp
qed

lemma resolve_zeromap_Inr:
  assumes "\<forall>d \<in> set dups. 0 \<le> coloridx d \<and> coloridx d < int (length idxmap) \<and>
             unat (data d) < length idxmap"
  shows "\<exists>idxmap'. resolve_zeromap dups idxmap = Inr idxmap' \<and>
           length idxmap' = length idxmap \<and> set idxmap' \<subseteq> set idxmap \<and>
           (\<forall>n. int n \<notin> coloridx ` set dups \<longrightarrow> idxmap' ! n = idxmap ! n) \<and>
           (distinct (map coloridx dups) \<and> (\<forall>d \<in> set dups. uint (data d) \<notin> coloridx ` set dups) \<longrightarrow>
              (\<forall>d \<in> set dups. idxmap' ! nat (coloridx d) = idxmap ! unat (data d)))"
  using assms
proof (induction dups arbitrary: idxmap)
  case Nil
  then show ?case by simp
next
  case (Cons d dups)
  let ?v = "idxmap ! unat (data d)"
  let ?m1 = "idxmap[nat (coloridx d) := ?v]"
  have c: "0 \<le> coloridx d" "coloridx d < int (length idxmap)" "unat (data d) < length idxmap"
    using Cons.prems by simp_all
  have ld: "load idxmap (uint (data d)) = Inr ?v" using c(3) by (rule load_uint)
  have st: "store idxmap (coloridx d) ?v = Inr ?m1" using c(1,2) by (rule store_Inr)
  have vin: "?v \<in> set idxmap" using c(3) by (rule nth_mem)
  have "\<exists>idxmap'. resolve_zeromap dups ?m1 = Inr idxmap' \<and>
           length idxmap' = length ?m1 \<and> set idxmap' \<subseteq> set ?m1 \<and>
           (\<forall>n. int n \<notin> coloridx ` set dups \<longrightarrow> idxmap' ! n = ?m1 ! n) \<and>
           (distinct (map coloridx dups) \<and> (\<forall>d \<in> set dups. uint (data d) \<notin> coloridx ` set dups) \<longrightarrow>
              (\<forall>d \<in> set dups. idxmap' ! nat (coloridx d) = ?m1 ! unat (data d)))"
    using Cons.prems by (intro Cons.IH) simp
  then obtain idxmap' where r: "resolve_zeromap dups ?m1 = Inr idxmap'"
    "length idxmap' = length idxmap" "set idxmap' \<subseteq> set ?m1"
    "\<forall>n. int n \<notin> coloridx ` set dups \<longrightarrow> idxmap' ! n = ?m1 ! n"
    "distinct (map coloridx dups) \<and> (\<forall>d \<in> set dups. uint (data d) \<notin> coloridx ` set dups) \<longrightarrow>
       (\<forall>d \<in> set dups. idxmap' ! nat (coloridx d) = ?m1 ! unat (data d))"
    by auto
  have sub: "set idxmap' \<subseteq> set idxmap"
    using r(3) set_update_subset_insert[of idxmap "nat (coloridx d)" ?v] vin by blast
  have unch: "\<forall>n. int n \<notin> coloridx ` set (d # dups) \<longrightarrow> idxmap' ! n = idxmap ! n"
  proof (intro allI impI)
    fix n assume n: "int n \<notin> coloridx ` set (d # dups)"
    then have "int n \<notin> coloridx ` set dups" and "n \<noteq> nat (coloridx d)" using c by auto
    with r(4) show "idxmap' ! n = idxmap ! n" by simp
  qed
  have refs: "\<forall>e \<in> set (d # dups). idxmap' ! nat (coloridx e) = idxmap ! unat (data e)"
    if di: "distinct (map coloridx (d # dups))"
      and nr: "\<forall>e \<in> set (d # dups). uint (data e) \<notin> coloridx ` set (d # dups)"
  proof
    fix e assume e: "e \<in> set (d # dups)"
    show "idxmap' ! nat (coloridx e) = idxmap ! unat (data e)"
    proof (cases "e = d")
      case True
      have "int (nat (coloridx d)) \<notin> coloridx ` set dups" using di c by simp
      with r(4) have "idxmap' ! nat (coloridx d) = ?m1 ! nat (coloridx d)" by blast
      also have "\<dots> = ?v" using c by simp
      finally show ?thesis using True by simp
    next
      case False
      with e have e': "e \<in> set dups" by simp
      from di nr have "distinct (map coloridx dups)"
        "\<forall>d \<in> set dups. uint (data d) \<notin> coloridx ` set dups" by auto
      with r(5) e' have "idxmap' ! nat (coloridx e) = ?m1 ! unat (data e)" by blast
      moreover from nr e have "uint (data e) \<noteq> coloridx d" by auto
      then have "unat (data e) \<noteq> nat (coloridx d)" using c(1) by (rule unat_neq_nat)
      ultimately show ?thesis by simp
    qed
  qed
  show ?case
    using ld st r(1,2) sub unch refs by (intro exI[of _ idxmap']) simp
qed

definition distinct_colors :: "SQ \<Rightarrow> nat" where
  "distinct_colors q = card (rgb ` set (first q))"

lemma sq_wf_coloridx:
  assumes "sq_wf q"
  shows "mset (map coloridx (first q)) = mset (map int [0..<length (first q)])"
  using assms by (simp add: sq_wf_def)

lemma deduped_coloridx:
  assumes wf: "sq_wf q" and de: "deduped q q1"
  shows "distinct (map coloridx (first q1 @ zeromap q1))"
    and "\<forall>c \<in> set (first q1 @ zeromap q1). 0 \<le> coloridx c \<and> coloridx c < int (length (first q))"
proof -
  let ?n = "length (first q)"
  have m: "mset (map coloridx (first q1 @ zeromap q1)) = mset (map int [0..<?n])"
    using de sq_wf_coloridx[OF wf] by (simp only: deduped_def)
  have "distinct (map int [0..<?n])" by (simp add: distinct_map)
  with m show "distinct (map coloridx (first q1 @ zeromap q1))"
    using mset_eq_imp_distinct_iff by blast
  from m have "set (map coloridx (first q1 @ zeromap q1)) = set (map int [0..<?n])"
    by (rule mset_eq_setD)
  then have e: "coloridx ` set (first q1 @ zeromap q1) = int ` {0..<?n}"
    by (simp only: set_map set_upt)
  show "\<forall>c \<in> set (first q1 @ zeromap q1). 0 \<le> coloridx c \<and> coloridx c < int ?n"
  proof
    fix c assume "c \<in> set (first q1 @ zeromap q1)"
    then have "coloridx c \<in> int ` {0..<?n}" using e by blast
    then show "0 \<le> coloridx c \<and> coloridx c < int ?n" by auto
  qed
qed

lemma unat_word_of_int_le:
  assumes "0 \<le> k"
  shows "unat (word_of_int k :: u32) \<le> nat k"
proof -
  from assms obtain m where k: "k = int m" using nonneg_int_cases by blast
  have "unat (word_of_nat m :: u32) \<le> m" by (simp add: unat_of_nat)
  then show ?thesis by (simp add: k)
qed

lemma unat_word_of_int_eq:
  assumes "0 \<le> k" and "k < 2 ^ 32"
  shows "uint (word_of_int k :: u32) = k"
  using assms by (simp add: uint_word_of_int take_bit_int_eq_self)

lemma deduped_refs:
  assumes wf: "sq_wf q" and de: "deduped q q1"
  shows "\<forall>d \<in> set (zeromap q1). unat (data d) < length (first q)"
proof
  fix d assume "d \<in> set (zeromap q1)"
  with de obtain s x where s: "s \<in> set (first q1)" and d: "d = x\<lparr>data := word_of_int (coloridx s)\<rparr>"
    unfolding deduped_def by blast
  from deduped_coloridx(2)[OF wf de] s have c: "0 \<le> coloridx s" "coloridx s < int (length (first q))"
    by simp_all
  from c have "nat (coloridx s) < length (first q)" by linarith
  with unat_word_of_int_le[OF c(1)] have "unat (word_of_int (coloridx s) :: u32) < length (first q)"
    by (rule le_less_trans)
  then show "unat (data d) < length (first q)" by (simp add: d)
qed

lemma deduped_length:
  assumes wf: "sq_wf q" and de: "deduped q q1"
  shows "length (first q1) = distinct_colors q"
proof -
  have rn: "\<forall>c \<in> set (first q). rgb_node c" using wf by (simp add: sq_wf_def)
  have sub: "set (first q1) \<subseteq> set (first q)" using de by (simp only: deduped_def)
  have "distinct (map data (first q1))" using de by (simp only: deduped_def)
  moreover have "\<forall>x \<in> set (first q1). \<forall>y \<in> set (first q1). rgb x = rgb y \<longrightarrow> data x = data y"
    using rn sub by (meson rgb_node_data_eq subsetD)
  ultimately have "distinct (map rgb (first q1))" by (rule distinct_map_transfer)
  then have "card (set (map rgb (first q1))) = length (map rgb (first q1))" by (rule distinct_card)
  then have c: "card (rgb ` set (first q1)) = length (first q1)" by simp
  have "rgb ` set (first q) \<subseteq> rgb ` set (first q1)"
  proof
    fix v assume "v \<in> rgb ` set (first q)"
    then obtain x where x: "x \<in> set (first q)" "v = rgb x" by blast
    from de x(1) consider "x \<in> set (first q1)"
      | s where "s \<in> set (first q1)" "data s = data x"
      unfolding deduped_def by blast
    then show "v \<in> rgb ` set (first q1)"
    proof cases
      case 1
      with x show ?thesis by blast
    next
      case 2
      with rn sub x(1) have "rgb s = rgb x" by (meson rgb_node_data_eq subsetD)
      with 2 x show ?thesis by (metis imageI)
    qed
  qed
  with sub have "rgb ` set (first q) = rgb ` set (first q1)" by blast
  with c show ?thesis by (simp add: distinct_colors_def)
qed

end
